theory Spec2Isabelle
  imports Complex_Main "HOL-Library.Multiset" "HOL-Library.Product_Lexorder" "HOL-Library.Log_Nat"
begin

section \<open>Dates\<close>

text \<open>
  A JavaScript \<open>Date\<close> is modelled by the number of milliseconds on the local
  wall-clock time line (what \<open>toDate\<close> of \<open>@repo/temporal\<close> returns, read in the
  browser's zone).  Every local day has 24 hours: daylight-saving transitions are outside
  the model.  The functions below are the \<open>date-fns\<close> functions the two views import,
  with the behaviour of date-fns 4.
\<close>

type_synonym date = int

definition msPerMinute :: int where
  "msPerMinute = 60000"

definition msPerHour :: int where
  "msPerHour = 3600000"

definition msPerDay :: int where
  "msPerDay = 86400000"

definition startOfDay :: "date \<Rightarrow> date" where
  "startOfDay d = d - d mod msPerDay"

definition isSameDay :: "date \<Rightarrow> date \<Rightarrow> bool" where
  "isSameDay a b = (startOfDay a = startOfDay b)"

definition addHours :: "date \<Rightarrow> int \<Rightarrow> date" where
  "addHours d n = d + n * msPerHour"

definition subDays :: "date \<Rightarrow> int \<Rightarrow> date" where
  "subDays d n = d - n * msPerDay"

definition getHours :: "date \<Rightarrow> int" where
  "getHours d = (d mod msPerDay) div msPerHour"

definition getMinutes :: "date \<Rightarrow> int" where
  "getMinutes d = (d mod msPerHour) div msPerMinute"

text \<open>\<open>differenceInMinutes\<close> rounds the quotient towards zero (\<open>Math.trunc\<close>).\<close>

definition differenceInMinutes :: "date \<Rightarrow> date \<Rightarrow> int" where
  "differenceInMinutes later earlier =
     (let diff = later - earlier
      in if 0 \<le> diff then diff div msPerMinute else - ((- diff) div msPerMinute))"

text \<open>
  \<open>areIntervalsOverlapping\<close> orders the two end points of each interval first and then
  compares strictly (the option \<open>inclusive\<close> is not passed).
\<close>

definition areIntervalsOverlapping :: "date \<times> date \<Rightarrow> date \<times> date \<Rightarrow> bool" where
  "areIntervalsOverlapping l r =
     (let leftStartTime = min (fst l) (snd l); leftEndTime = max (fst l) (snd l);
          rightStartTime = min (fst r) (snd r); rightEndTime = max (fst r) (snd r)
      in leftStartTime < rightEndTime \<and> rightStartTime < leftEndTime)"

text \<open>\<open>isWithinInterval\<close> orders the interval's end points and includes both.\<close>

definition isWithinInterval :: "date \<Rightarrow> date \<times> date \<Rightarrow> bool" where
  "isWithinInterval d iv =
     (let startTime = min (fst iv) (snd iv); endTime = max (fst iv) (snd iv)
      in startTime \<le> d \<and> d \<le> endTime)"

text \<open>
  \<open>eachDayOfInterval\<close>: the start of every day from the start of the interval's first
  day up to its end; an interval given backwards is walked forwards and reversed.
\<close>

definition eachDayOfInterval :: "date \<times> date \<Rightarrow> date list" where
  "eachDayOfInterval iv =
     (let reversed = (fst iv > snd iv);
          endTime = (if reversed then fst iv else snd iv);
          date0 = startOfDay (if reversed then snd iv else fst iv);
          dates = map (\<lambda>k. date0 + int k * msPerDay)
                    [0 ..< nat ((endTime - date0) div msPerDay + 1)]
      in if reversed then rev dates else dates)"

section \<open>Numbers\<close>

text \<open>
  A JavaScript number is an IEEE 754 double.  The finite doubles are rationals, and every
  arithmetic operation of the code is the exact operation followed by rounding to the
  nearest double, ties to the even significand: \<open>toDouble\<close>.  The significand has 53
  bits and the exponent of the last bit is at least -1074 (the subnormal range);
  magnitudes from \<open>2^1024\<close> on, which the code turns into \<open>Infinity\<close>, are outside the
  model.  A decimal literal of the code (\<open>0.9\<close>, \<open>0.1\<close>) is the double nearest to it.
\<close>

definition pow2 :: "int \<Rightarrow> rat" where
  "pow2 e = (if 0 \<le> e then 2 ^ nat e else 1 / 2 ^ nat (- e))"

definition roundHalfEven :: "rat \<Rightarrow> int" where
  "roundHalfEven y =
     (let f = \<lfloor>y\<rfloor>; r = y - of_int f
      in if r < 1 / 2 then f else if 1 / 2 < r then f + 1 else if even f then f else f + 1)"

text \<open>The exponent of the leading bit of a positive rational.\<close>

definition floorLog2 :: "rat \<Rightarrow> int" where
  "floorLog2 x =
     (let d = bitlen (fst (quotient_of x)) - bitlen (snd (quotient_of x))
      in if pow2 d \<le> x then d else d - 1)"

definition toDouble :: "rat \<Rightarrow> rat" where
  "toDouble x =
     (if x = 0 then 0
      else (let a = \<bar>x\<bar>;
                e = max (floorLog2 a - 52) (- 1074);
                m = roundHalfEven (a / pow2 e)
            in (if x < 0 then - 1 else 1) * of_int m * pow2 e))"

section \<open>Events and sorting\<close>

record CalendarEvent =
  eid :: string
  title :: string
  start :: date
  endAt :: date
  allDay :: bool

text \<open>
  The fields \<open>start\<close> and \<open>endAt\<close> hold \<open>toDate({value: event.start, timeZone})\<close> and
  \<open>toDate({value: event.end, timeZone})\<close>; the end of an all-day event is exclusive.

  \<open>Array.prototype.sort\<close> is stable; with a comparator that comes from a total
  preorder its result is that of a stable insertion sort.
\<close>

fun insertSorted :: "('a \<Rightarrow> 'a \<Rightarrow> int) \<Rightarrow> 'a \<Rightarrow> 'a list \<Rightarrow> 'a list" where
  "insertSorted cmp x [] = [x]"
| "insertSorted cmp x (y # ys) =
     (if cmp x y \<le> 0 then x # y # ys else y # insertSorted cmp x ys)"

definition jsSort :: "('a \<Rightarrow> 'a \<Rightarrow> int) \<Rightarrow> 'a list \<Rightarrow> 'a list" where
  "jsSort cmp xs = foldr (insertSorted cmp) xs []"

section \<open>Day view\<close>

text \<open>
  What the day view imports from files that are not part of the sources at hand is a
  parameter of the model: the predicate \<open>isMultiDayEvent\<close> and the constants
  \<open>StartHour\<close> and \<open>WeekCellsHeight\<close>.
\<close>

record Deps =
  isMultiDayEvent :: "CalendarEvent \<Rightarrow> bool"
  StartHour :: rat
  WeekCellsHeight :: rat

record PositionedEvent =
  event :: CalendarEvent
  top_px :: rat
  height_px :: rat
  left :: rat
  width :: rat
  zIndex :: nat

record ColumnEntry =
  colEvent :: CalendarEvent
  colEnd :: date

definition inDayFilter :: "date \<Rightarrow> CalendarEvent \<Rightarrow> bool" where
  "inDayFilter currentDate ev =
     (let eventStart = start ev; eventEnd = endAt ev
      in isSameDay currentDate eventStart \<or> isSameDay currentDate eventEnd \<or>
         (currentDate > eventStart \<and> currentDate < eventEnd))"

definition compareStart :: "CalendarEvent \<Rightarrow> CalendarEvent \<Rightarrow> int" where
  "compareStart a b = start a - start b"

definition dayEvents :: "date \<Rightarrow> CalendarEvent list \<Rightarrow> CalendarEvent list" where
  "dayEvents currentDate events =
     jsSort compareStart (filter (inDayFilter currentDate) events)"

definition dayAllDayEvents :: "Deps \<Rightarrow> date \<Rightarrow> CalendarEvent list \<Rightarrow> CalendarEvent list" where
  "dayAllDayEvents deps currentDate events =
     filter (\<lambda>ev. allDay ev \<or> isMultiDayEvent deps ev) (dayEvents currentDate events)"

definition timeEvents :: "Deps \<Rightarrow> date \<Rightarrow> CalendarEvent list \<Rightarrow> CalendarEvent list" where
  "timeEvents deps currentDate events =
     filter (\<lambda>ev. \<not> allDay ev \<and> \<not> isMultiDayEvent deps ev) (dayEvents currentDate events)"

definition compareStartDuration :: "CalendarEvent \<Rightarrow> CalendarEvent \<Rightarrow> int" where
  "compareStartDuration a b =
     (let aStart = start a; bStart = start b; aEnd = endAt a; bEnd = endAt b
      in if aStart < bStart then - 1
         else if aStart > bStart then 1
         else (let aDuration = differenceInMinutes aEnd aStart;
                   bDuration = differenceInMinutes bEnd bStart
               in bDuration - aDuration))"

definition sortedEvents :: "CalendarEvent list \<Rightarrow> CalendarEvent list" where
  "sortedEvents tevs = jsSort compareStartDuration tevs"

definition adjustedStart :: "date \<Rightarrow> CalendarEvent \<Rightarrow> date" where
  "adjustedStart currentDate ev =
     (if isSameDay currentDate (start ev) then start ev else startOfDay currentDate)"

definition adjustedEnd :: "date \<Rightarrow> CalendarEvent \<Rightarrow> date" where
  "adjustedEnd currentDate ev =
     (if isSameDay currentDate (endAt ev) then endAt ev
      else addHours (startOfDay currentDate) 24)"

text \<open>\<open>columns[columnIndex] || []\<close>: an index past the end reads as the empty column.\<close>

definition columnAt :: "ColumnEntry list list \<Rightarrow> nat \<Rightarrow> ColumnEntry list" where
  "columnAt columns columnIndex =
     (if columnIndex < length columns then columns ! columnIndex else [])"

definition overlapsColumn :: "date \<Rightarrow> date \<Rightarrow> ColumnEntry list \<Rightarrow> bool" where
  "overlapsColumn aStart aEnd col =
     list_ex (\<lambda>c. areIntervalsOverlapping (aStart, aEnd)
                    (start (colEvent c), endAt (colEvent c))) col"

text \<open>The \<open>while (!placed)\<close> loop: the index at which it stops.\<close>

function findColumn :: "date \<Rightarrow> date \<Rightarrow> ColumnEntry list list \<Rightarrow> nat \<Rightarrow> nat" where
  "findColumn aStart aEnd columns columnIndex =
     (if length (columnAt columns columnIndex) = 0 then columnIndex
      else if \<not> overlapsColumn aStart aEnd (columnAt columns columnIndex) then columnIndex
      else findColumn aStart aEnd columns (columnIndex + 1))"
  by pat_completeness auto
termination
  by (relation "measure (\<lambda>(aStart, aEnd, columns, columnIndex). length columns - columnIndex)")
     (auto simp: columnAt_def split: if_splits)

declare findColumn.simps [simp del]

text \<open>
  \<open>columns[columnIndex] = currentColumn; currentColumn.push(entry)\<close>.  Writing past the
  end of a JavaScript array leaves holes, which the loop reads as empty columns.
\<close>

definition pushColumn ::
  "ColumnEntry list list \<Rightarrow> nat \<Rightarrow> ColumnEntry \<Rightarrow> ColumnEntry list list" where
  "pushColumn columns columnIndex entry =
     (if columnIndex < length columns
      then columns[columnIndex := columns ! columnIndex @ [entry]]
      else columns @ replicate (columnIndex - length columns) [] @ [[entry]])"

text \<open>\<open>getHours(d) + getMinutes(d) / 60\<close>, a division and an addition of doubles.\<close>

definition hourOf :: "date \<Rightarrow> rat" where
  "hourOf d = toDouble (of_int (getHours d) + toDouble (of_int (getMinutes d) / 60))"

definition place ::
  "Deps \<Rightarrow> date \<Rightarrow> CalendarEvent \<Rightarrow> nat \<Rightarrow> PositionedEvent" where
  "place deps currentDate ev columnIndex =
     (let startHour = hourOf (adjustedStart currentDate ev);
          endHour = hourOf (adjustedEnd currentDate ev);
          top = toDouble (toDouble (startHour - StartHour deps) * WeekCellsHeight deps);
          height = toDouble (toDouble (endHour - startHour) * WeekCellsHeight deps);
          width = (if columnIndex = 0 then 1 else toDouble (9 / 10));
          left = (if columnIndex = 0 then 0
                  else toDouble (of_nat columnIndex * toDouble (1 / 10)))
      in \<lparr> event = ev, top_px = top, height_px = height, left = left, width = width,
           zIndex = 10 + columnIndex \<rparr>)"

text \<open>One round of \<open>sortedEvents.forEach\<close>, on the pair of \<open>columns\<close> and \<open>result\<close>.\<close>

definition placeEvent ::
  "Deps \<Rightarrow> date \<Rightarrow> CalendarEvent \<Rightarrow>
   ColumnEntry list list \<times> PositionedEvent list \<Rightarrow>
   ColumnEntry list list \<times> PositionedEvent list" where
  "placeEvent deps currentDate ev st =
     (let columns = fst st; result = snd st;
          aStart = adjustedStart currentDate ev;
          aEnd = adjustedEnd currentDate ev;
          columnIndex = findColumn aStart aEnd columns 0
      in (pushColumn columns columnIndex \<lparr> colEvent = ev, colEnd = aEnd \<rparr>,
          result @ [place deps currentDate ev columnIndex]))"

definition layoutState ::
  "Deps \<Rightarrow> date \<Rightarrow> CalendarEvent list \<Rightarrow>
   ColumnEntry list list \<times> PositionedEvent list" where
  "layoutState deps currentDate tevs =
     fold (placeEvent deps currentDate) (sortedEvents tevs) ([], [])"

definition positionedEvents ::
  "Deps \<Rightarrow> date \<Rightarrow> CalendarEvent list \<Rightarrow> PositionedEvent list" where
  "positionedEvents deps currentDate tevs = snd (layoutState deps currentDate tevs)"

text \<open>The timed part of the day view: from the \<open>events\<close> prop to the positioned events.\<close>

definition dayView :: "Deps \<Rightarrow> date \<Rightarrow> CalendarEvent list \<Rightarrow> PositionedEvent list" where
  "dayView deps currentDate events =
     positionedEvents deps currentDate (timeEvents deps currentDate events)"

text \<open>
  Sample values for the three imported parameters, used where a statement is evaluated
  at concrete events: an event counts as multi-day when it is all-day or its end is on
  another day than its start, the grid starts at midnight and an hour is 64 pixels high.
\<close>

definition sampleDeps :: Deps where
  "sampleDeps =
     \<lparr> isMultiDayEvent = (\<lambda>ev. allDay ev \<or> \<not> isSameDay (start ev) (endAt ev)),
       StartHour = 0, WeekCellsHeight = 64 \<rparr>"

definition timed :: "string \<Rightarrow> date \<Rightarrow> date \<Rightarrow> CalendarEvent" where
  "timed i s e = \<lparr> eid = i, title = i, start = s, endAt = e, allDay = False \<rparr>"

definition wholeDay :: "string \<Rightarrow> date \<Rightarrow> date \<Rightarrow> CalendarEvent" where
  "wholeDay i s e = \<lparr> eid = i, title = i, start = s, endAt = e, allDay = True \<rparr>"

text \<open>The clock time \<open>h:m\<close> on day number \<open>n\<close> of the time line.\<close>

definition clock :: "int \<Rightarrow> int \<Rightarrow> int \<Rightarrow> date" where
  "clock n h m = n * msPerDay + h * msPerHour + m * msPerMinute"

subsection \<open>The arrays of the day view\<close>

text \<open>
  \<open>Array.prototype.sort\<close> sorts in place, \<open>filter\<close> and the spread \<open>[...xs]\<close>
  allocate.  To follow which array each call writes, the arrays live in a store: a
  reference is a number, \<open>nextRef\<close> is the first unused one.  The elements are the event
  objects; no statement of the day view assigns to a field of an event.
\<close>

record Store =
  arrays :: "nat \<Rightarrow> CalendarEvent list"
  nextRef :: nat

definition alloc :: "Store \<Rightarrow> CalendarEvent list \<Rightarrow> Store \<times> nat" where
  "alloc h xs =
     (h\<lparr> arrays := (arrays h)(nextRef h := xs), nextRef := nextRef h + 1 \<rparr>, nextRef h)"

definition arrayFilter :: "(CalendarEvent \<Rightarrow> bool) \<Rightarrow> Store \<Rightarrow> nat \<Rightarrow> Store \<times> nat" where
  "arrayFilter p h a = alloc h (filter p (arrays h a))"

definition arraySpread :: "Store \<Rightarrow> nat \<Rightarrow> Store \<times> nat" where
  "arraySpread h a = alloc h (arrays h a)"

definition arraySort ::
  "(CalendarEvent \<Rightarrow> CalendarEvent \<Rightarrow> int) \<Rightarrow> Store \<Rightarrow> nat \<Rightarrow> Store \<times> nat" where
  "arraySort cmp h a = (h\<lparr> arrays := (arrays h)(a := jsSort cmp (arrays h a)) \<rparr>, a)"

text \<open>
  One render of \<open>DayView\<close>: the store afterwards, the reference of \<open>allDayEvents\<close>
  and the positioned events.
\<close>

definition dayViewPass ::
  "Deps \<Rightarrow> date \<Rightarrow> Store \<Rightarrow> nat \<Rightarrow> Store \<times> nat \<times> PositionedEvent list" where
  "dayViewPass deps currentDate h0 eventsRef =
     (let (h1, filteredRef) = arrayFilter (inDayFilter currentDate) h0 eventsRef;
          (h2, dayEventsRef) = arraySort compareStart h1 filteredRef;
          (h3, allDayEventsRef) =
             arrayFilter (\<lambda>ev. allDay ev \<or> isMultiDayEvent deps ev) h2 dayEventsRef;
          (h4, timeEventsRef) =
             arrayFilter (\<lambda>ev. \<not> allDay ev \<and> \<not> isMultiDayEvent deps ev) h3 dayEventsRef;
          (h5, copyRef) = arraySpread h4 timeEventsRef;
          (h6, sortedEventsRef) = arraySort compareStartDuration h5 copyRef;
          st = fold (placeEvent deps currentDate) (arrays h6 sortedEventsRef) ([], [])
      in (h6, allDayEventsRef, snd st))"

section \<open>Week view: the all-day section\<close>

text \<open>
  \<open>events\<close> is \<open>eventCollection.allDayEvents\<close>, \<open>weekStart\<close> is
  \<open>startOfWeek(currentDate)\<close>, \<open>weekEnd\<close> is the last element of \<open>allDays\<close> and
  \<open>isWeekend\<close> is imported from a file that is not part of the sources at hand.
\<close>

definition weekAllDayEvents ::
  "bool \<Rightarrow> (date \<Rightarrow> bool) \<Rightarrow> date \<Rightarrow> date \<Rightarrow> CalendarEvent list \<Rightarrow> CalendarEvent list" where
  "weekAllDayEvents showWeekends isWeekend weekStart weekEnd events =
     (if \<not> showWeekends then
        filter (\<lambda>ev.
          let eventStart = start ev;
              eventEnd = (if allDay ev then subDays (endAt ev) 1 else endAt ev);
              eventDays = eachDayOfInterval
                (if eventStart < weekStart then weekStart else eventStart,
                 if eventEnd > weekEnd then weekEnd else eventEnd);
              hasNonWeekendDay = list_ex (\<lambda>day. \<not> isWeekend day) eventDays
          in hasNonWeekendDay) events
      else
        filter (\<lambda>ev.
          let eventStart = start ev;
              eventEnd = (if allDay ev then subDays (endAt ev) 1 else endAt ev)
          in isWithinInterval eventStart (weekStart, weekEnd) \<or>
             isWithinInterval eventEnd (weekStart, weekEnd)) events)"

text \<open>\<open>isFirstDay\<close> and \<open>isLastDay\<close> of \<open>WeekViewPositionedEvent\<close>.\<close>

definition isFirstDay :: "date \<Rightarrow> CalendarEvent \<Rightarrow> bool" where
  "isFirstDay weekStart evt = (start evt \<ge> weekStart)"

definition isLastDay :: "date \<Rightarrow> CalendarEvent \<Rightarrow> bool" where
  "isLastDay weekEnd evt =
     (let eventEnd = (if allDay evt then subDays (endAt evt) 1 else endAt evt)
      in eventEnd \<le> weekEnd)"

text \<open>
  The overflow events shown in the cell of \<open>day\<close>, and the cells of all days.  Every
  day of \<open>allDays\<close> gets a cell; the cell of a weekend day is rendered with
  \<open>visibility: hidden\<close> and no width when weekends are not shown (\<open>isDayVisible\<close>),
  and the overflow indicator is inside the cell.
\<close>

definition dayOverflowEvents :: "CalendarEvent list \<Rightarrow> date \<Rightarrow> CalendarEvent list" where
  "dayOverflowEvents overflowEvents day =
     filter (\<lambda>ev. isSameDay (start ev) day) overflowEvents"

record DayCell =
  cellDay :: date
  isDayVisible :: bool
  cellOverflowEvents :: "CalendarEvent list"

definition overflowCells ::
  "bool \<Rightarrow> (date \<Rightarrow> bool) \<Rightarrow> CalendarEvent list \<Rightarrow> date list \<Rightarrow> DayCell list" where
  "overflowCells showWeekends isWeekend overflowEvents allDays =
     map (\<lambda>day. \<lparr> cellDay = day,
                   isDayVisible = (showWeekends \<or> \<not> isWeekend day),
                   cellOverflowEvents = dayOverflowEvents overflowEvents day \<rparr>) allDays"

subsection \<open>Lane packing with a capacity\<close>

text \<open>
  Modelled from the spec: \<open>placeIntoLanes\<close> and the hook \<open>useMultiDayOverflow\<close>,
  which the week view imports and whose files are not part of the sources at hand.
  The spec: events are sorted by start ascending, then by duration descending; each is
  put into the first lane none of whose members overlaps it, a new lane being opened
  when there is none; an event occupies every day it spans, the end of an all-day event
  being taken one day earlier; the first \<open>minVisibleLanes\<close> lanes are visible and the
  events of the other lanes are the overflow.
\<close>

text \<open>Modelled from the spec: the first and the last day an event occupies.\<close>

definition firstDayOf :: "CalendarEvent \<Rightarrow> date" where
  "firstDayOf ev = startOfDay (start ev)"

definition lastDayOf :: "CalendarEvent \<Rightarrow> date" where
  "lastDayOf ev = startOfDay (if allDay ev then subDays (endAt ev) 1 else endAt ev)"

text \<open>
  Modelled from the spec: the overlap test of the packing at whole-day granularity, the
  half-open intersection of the two spans of days; and whether an event is on a day.
\<close>

definition daysOverlap :: "CalendarEvent \<Rightarrow> CalendarEvent \<Rightarrow> bool" where
  "daysOverlap a b =
     (firstDayOf a < lastDayOf b + msPerDay \<and> firstDayOf b < lastDayOf a + msPerDay)"

definition coversDay :: "date \<Rightarrow> CalendarEvent \<Rightarrow> bool" where
  "coversDay day ev = (firstDayOf ev \<le> startOfDay day \<and> startOfDay day \<le> lastDayOf ev)"

text \<open>Modelled from the spec: the sort rule, start ascending, then duration descending.\<close>

definition compareLaneOrder :: "CalendarEvent \<Rightarrow> CalendarEvent \<Rightarrow> int" where
  "compareLaneOrder a b =
     (if start a < start b then - 1
      else if start a > start b then 1
      else (endAt b - start b) - (endAt a - start a))"

text \<open>
  Modelled from the spec: \<open>placeIntoLanes\<close>, the scan of the lanes from index 0 for
  the first lane that admits the event, and the placement of the sorted events.
\<close>

fun findLane :: "CalendarEvent \<Rightarrow> CalendarEvent list list \<Rightarrow> nat" where
  "findLane ev [] = 0"
| "findLane ev (lane # lanes) =
     (if \<not> list_ex (daysOverlap ev) lane then 0 else Suc (findLane ev lanes))"

definition addToLane ::
  "CalendarEvent \<Rightarrow> CalendarEvent list list \<Rightarrow> CalendarEvent list list" where
  "addToLane ev lanes =
     (let i = findLane ev lanes
      in if i < length lanes then lanes[i := lanes ! i @ [ev]] else lanes @ [[ev]])"

definition placeIntoLanes :: "CalendarEvent list \<Rightarrow> CalendarEvent list list" where
  "placeIntoLanes events = fold addToLane (jsSort compareLaneOrder events) []"

text \<open>
  Modelled from the spec: \<open>useMultiDayOverflow\<close>, of whose result the week view reads
  \<open>capacityInfo.visibleLanes\<close> and \<open>overflowEvents\<close>.
\<close>

record Overflow =
  visibleLanes :: "CalendarEvent list list"
  overflowEvents :: "CalendarEvent list"

definition useMultiDayOverflow :: "CalendarEvent list \<Rightarrow> nat \<Rightarrow> Overflow" where
  "useMultiDayOverflow events minVisibleLanes =
     (let lanes = placeIntoLanes events
      in \<lparr> visibleLanes = take minVisibleLanes lanes,
           overflowEvents = concat (drop minVisibleLanes lanes) \<rparr>)"

text \<open>
  Modelled from the spec: the quantities of its capacity invariant for one day of the week
  view, whose hook is called with \<open>minVisibleLanes: 10\<close>: the visible lanes with an
  event on the day, the count of the day's overflow indicator (the length of
  \<open>dayOverflowEvents\<close>), the hidden events on the day, and all the events on the day.
\<close>

definition weekOverflow :: "CalendarEvent list \<Rightarrow> Overflow" where
  "weekOverflow allDayEvents = useMultiDayOverflow allDayEvents 10"

definition visibleLaneCount :: "CalendarEvent list \<Rightarrow> date \<Rightarrow> nat" where
  "visibleLaneCount allDayEvents day =
     length (filter (list_ex (coversDay day)) (visibleLanes (weekOverflow allDayEvents)))"

definition overflowCount :: "CalendarEvent list \<Rightarrow> date \<Rightarrow> nat" where
  "overflowCount allDayEvents day =
     length (dayOverflowEvents (overflowEvents (weekOverflow allDayEvents)) day)"

definition hiddenOnDay :: "CalendarEvent list \<Rightarrow> date \<Rightarrow> nat" where
  "hiddenOnDay allDayEvents day =
     length (filter (coversDay day) (overflowEvents (weekOverflow allDayEvents)))"

definition totalOverlappingEventsOnDay :: "CalendarEvent list \<Rightarrow> date \<Rightarrow> nat" where
  "totalOverlappingEventsOnDay allDayEvents day =
     length (filter (coversDay day) allDayEvents)"

section \<open>Notions used in the statements\<close>

text \<open>
  The overlap of two half-open intervals, \<open>aStart < bEnd && bStart < aEnd\<close>, and the
  interval of an event clipped to the rendered day (\<open>adjustedStart\<close>, \<open>adjustedEnd\<close>).
\<close>

definition halfOpenOverlap :: "date \<times> date \<Rightarrow> date \<times> date \<Rightarrow> bool" where
  "halfOpenOverlap a b = (fst a < snd b \<and> fst b < snd a)"

definition timedInterval :: "date \<Rightarrow> CalendarEvent \<Rightarrow> date \<times> date" where
  "timedInterval currentDate ev = (adjustedStart currentDate ev, adjustedEnd currentDate ev)"

text \<open>The clipped interval lies between the two end points of the event.\<close>

definition contained :: "date \<Rightarrow> CalendarEvent \<Rightarrow> bool" where
  "contained currentDate ev =
     (min (start ev) (endAt ev) \<le> adjustedStart currentDate ev \<and>
      adjustedEnd currentDate ev \<le> max (start ev) (endAt ev))"

text \<open>
  The link between \<open>result\<close> and \<open>columns\<close>: a positioned event with z-index
  \<open>10 + k\<close> was pushed onto column \<open>k\<close> and was built from \<open>k\<close>.
\<close>

definition linked ::
  "Deps \<Rightarrow> date \<Rightarrow> ColumnEntry list list \<times> PositionedEvent list \<Rightarrow> bool" where
  "linked deps currentDate st =
     (\<forall>p \<in> set (snd st).
        10 \<le> zIndex p \<and> zIndex p - 10 < length (fst st) \<and>
        \<lparr> colEvent = event p, colEnd = adjustedEnd currentDate (event p) \<rparr>
          \<in> set (fst st ! (zIndex p - 10)) \<and>
        p = place deps currentDate (event p) (zIndex p - 10))"

definition separated :: "date \<Rightarrow> PositionedEvent list \<Rightarrow> bool" where
  "separated currentDate res =
     (\<forall>i j. i < j \<and> j < length res \<and> zIndex (res ! i) = zIndex (res ! j) \<longrightarrow>
        \<not> halfOpenOverlap (timedInterval currentDate (event (res ! i)))
                          (timedInterval currentDate (event (res ! j))))"

text \<open>The columns at the end of the day view's loop.\<close>

definition dayViewColumns :: "Deps \<Rightarrow> date \<Rightarrow> CalendarEvent list \<Rightarrow> ColumnEntry list list" where
  "dayViewColumns deps currentDate events =
     fst (layoutState deps currentDate (timeEvents deps currentDate events))"

text \<open>The order of the second sort as a key: start, then whole minutes of duration, negated.\<close>

definition startDurationKey :: "CalendarEvent \<Rightarrow> int \<times> int" where
  "startDurationKey ev = (start ev, - differenceInMinutes (endAt ev) (start ev))"

text \<open>Events on day 5 of the time line: 09:00 to 10:00, 09:30 to 10:30, 10:00 to 11:00.\<close>

definition exA :: CalendarEvent where
  "exA = timed ''A'' (clock 5 9 0) (clock 5 10 0)"

definition exB :: CalendarEvent where
  "exB = timed ''B'' (clock 5 9 30) (clock 5 10 30)"

definition exC :: CalendarEvent where
  "exC = timed ''C'' (clock 5 10 0) (clock 5 11 0)"

text \<open>Two more events that overlap A and B and each other: 09:40 to 10:40, 09:50 to 10:50.\<close>

definition exQ :: CalendarEvent where
  "exQ = timed ''Q'' (clock 5 9 40) (clock 5 10 40)"

definition exR :: CalendarEvent where
  "exR = timed ''R'' (clock 5 9 50) (clock 5 10 50)"

text \<open>
  The events of the two sorts' ties: A2 has the times of A; S lasts one minute and L one
  minute and 59 seconds from the same start.
\<close>

definition exA2 :: CalendarEvent where
  "exA2 = timed ''A2'' (clock 5 9 0) (clock 5 10 0)"

definition exShort :: CalendarEvent where
  "exShort = timed ''S'' (clock 5 9 0) (clock 5 9 1)"

definition exLonger :: CalendarEvent where
  "exLonger = timed ''L'' (clock 5 9 0) (clock 5 9 1 + 59000)"

text \<open>The state of the day view's loop after the first \<open>n\<close> sorted events.\<close>

definition layoutPrefix ::
  "Deps \<Rightarrow> date \<Rightarrow> CalendarEvent list \<Rightarrow> nat \<Rightarrow>
   ColumnEntry list list \<times> PositionedEvent list" where
  "layoutPrefix deps currentDate tevs n =
     fold (placeEvent deps currentDate) (take n (sortedEvents tevs)) ([], [])"

text \<open>
  A store whose only array, at reference 0, holds B before A; an event from 23:00 of day 4
  to 01:00 of day 5, a store holding it, and parameters under which no event counts as
  multi-day, so that this event reaches the timed grid.
\<close>

definition sampleStore :: Store where
  "sampleStore = \<lparr> arrays = (\<lambda>r. [])(0 := [exB, exA]), nextRef = 1 \<rparr>"

definition exLate :: CalendarEvent where
  "exLate = timed ''N'' (clock 4 23 0) (clock 5 1 0)"

definition lateStore :: Store where
  "lateStore = \<lparr> arrays = (\<lambda>r. [])(0 := [exLate]), nextRef = 1 \<rparr>"

definition timedOnlyDeps :: Deps where
  "timedOnlyDeps = sampleDeps \<lparr> isMultiDayEvent := (\<lambda>ev. False) \<rparr>"

text \<open>
  Day 0 of the time line is a Thursday, so day 3 is a Sunday: a sample \<open>isWeekend\<close>,
  the week of days 3 to 9, and all-day events from Friday to Tuesday, on Saturday, and
  from Friday to the Monday after the week (ends are exclusive).
\<close>

definition sampleIsWeekend :: "date \<Rightarrow> bool" where
  "sampleIsWeekend day =
     (let dayOfWeek = (day div msPerDay + 4) mod 7 in dayOfWeek = 0 \<or> dayOfWeek = 6)"

definition sampleWeek :: "date list" where
  "sampleWeek = map (\<lambda>n. clock (int n) 0 0) [3 ..< 10]"

definition exLongBefore :: CalendarEvent where
  "exLongBefore = wholeDay ''E'' (clock 1 0 0) (clock 6 0 0)"

definition exSaturday :: CalendarEvent where
  "exSaturday = wholeDay ''P'' (clock 2 0 0) (clock 3 0 0)"

definition exSpanning :: CalendarEvent where
  "exSpanning = wholeDay ''L'' (clock 1 0 0) (clock 12 0 0)"

text \<open>
  All-day events that start in the week, on Monday and on Sunday, and eleven all-day
  events from Friday before the week to Tuesday.
\<close>

definition exMonday :: CalendarEvent where
  "exMonday = wholeDay ''M'' (clock 4 0 0) (clock 6 0 0)"

definition exSunday :: CalendarEvent where
  "exSunday = wholeDay ''U'' (clock 3 0 0) (clock 6 0 0)"

definition exElevenBefore :: "CalendarEvent list" where
  "exElevenBefore =
     map (\<lambda>n. wholeDay (replicate (Suc n) CHR ''b'') (clock 1 0 0) (clock 6 0 0)) [0 ..< 11]"

text \<open>The order of the lane packing's sort as a key: start, then duration, negated.\<close>

definition laneOrderKey :: "CalendarEvent \<Rightarrow> int \<times> int" where
  "laneOrderKey ev = (start ev, - (endAt ev - start ev))"

text \<open>Eleven all-day events on Monday and Tuesday of that week.\<close>

definition exEleven :: "CalendarEvent list" where
  "exEleven =
     map (\<lambda>n. wholeDay (replicate (Suc n) CHR ''e'') (clock 4 0 0) (clock 6 0 0)) [0 ..< 11]"

text \<open>No two events of a lane overlap in days.\<close>

definition laneOk :: "CalendarEvent list \<Rightarrow> bool" where
  "laneOk lane = sorted_wrt (\<lambda>a b. \<not> daysOverlap b a) lane"

section \<open>Facts about dates and sorting\<close>

lemma msPerDay_pos: "0 < msPerDay" by (simp add: msPerDay_def)

lemma startOfDay_div: "startOfDay d = msPerDay * (d div msPerDay)"
  by (simp add: startOfDay_def minus_mod_eq_mult_div)

lemma startOfDay_le: "startOfDay d \<le> d"
  using msPerDay_pos by (simp add: startOfDay_def)

lemma startOfDay_gt: "d < startOfDay d + msPerDay"
  using msPerDay_pos pos_mod_bound[of msPerDay d] by (simp add: startOfDay_def)

lemma isSameDay_iff:
  "isSameDay c x \<longleftrightarrow> startOfDay c \<le> x \<and> x < startOfDay c + msPerDay"
proof
  assume "isSameDay c x"
  then have "startOfDay c = startOfDay x" by (simp add: isSameDay_def)
  then show "startOfDay c \<le> x \<and> x < startOfDay c + msPerDay"
    using startOfDay_le[of x] startOfDay_gt[of x] by simp
next
  assume a: "startOfDay c \<le> x \<and> x < startOfDay c + msPerDay"
  define q where "q = c div msPerDay"
  define r where "r = x - msPerDay * q"
  have "x = msPerDay * q + r" "0 \<le> r" "r < msPerDay"
    using a by (simp_all add: r_def q_def startOfDay_div)
  then have "x div msPerDay = q" by (rule int_div_pos_eq)
  then show "isSameDay c x" by (simp add: isSameDay_def startOfDay_div q_def)
qed

lemma insertSorted_insort_key:
  assumes "\<And>x y. cmp x y \<le> 0 \<longleftrightarrow> f x \<le> f y"
  shows "insertSorted cmp x xs = insort_key f x xs"
  by (induction xs) (simp_all add: assms)

lemma jsSort_sort_key:
  assumes "\<And>x y. cmp x y \<le> 0 \<longleftrightarrow> f x \<le> f y"
  shows "jsSort cmp xs = sort_key f xs"
proof -
  have "insertSorted cmp = insort_key f"
    by (intro ext) (rule insertSorted_insort_key[OF assms])
  then show ?thesis by (simp add: jsSort_def sort_key_def)
qed

lemma compareStart_le: "compareStart a b \<le> 0 \<longleftrightarrow> start a \<le> start b"
  by (simp add: compareStart_def)

lemma compareStartDuration_le:
  "compareStartDuration a b \<le> 0 \<longleftrightarrow> startDurationKey a \<le> startDurationKey b"
  by (auto simp: compareStartDuration_def startDurationKey_def Let_def less_eq_prod_def)

lemma dayEvents_sort_key:
  "dayEvents cur events = sort_key start (filter (inDayFilter cur) events)"
  by (simp add: dayEvents_def jsSort_sort_key[of compareStart start] compareStart_le)

lemma sortedEvents_sort_key: "sortedEvents tevs = sort_key startDurationKey tevs"
  by (simp add: sortedEvents_def
      jsSort_sort_key[of compareStartDuration startDurationKey] compareStartDuration_le)


section \<open>Facts about doubles\<close>

lemma pow2_powi: "pow2 e = 2 powi e"
  by (simp add: pow2_def power_int_def inverse_eq_divide power_one_over)

lemma pow2_pos: "0 < pow2 e"
  by (simp add: pow2_powi)

lemma pow2_add: "pow2 (i + j) = pow2 i * pow2 j"
  by (simp add: pow2_powi power_int_add)

lemma pow2_nat: "0 \<le> e \<Longrightarrow> pow2 e = 2 ^ nat e"
  by (simp add: pow2_def)

lemma floorLog2_bounds:
  assumes "0 < x"
  shows "pow2 (floorLog2 x) \<le> x \<and> x < pow2 (floorLog2 x + 1)"
proof -
  obtain a b where q: "quotient_of x = (a, b)" by (cases "quotient_of x")
  then have b: "0 < b" and x: "x = of_int a / of_int b"
    using quotient_of_denom_pos[OF q] quotient_of_div[OF q] by simp_all
  have a: "0 < a"
    using assms b x by (simp add: zero_less_divide_iff)
  define la where "la = bitlen a"
  define lb where "lb = bitlen b"
  have la0: "0 < la"
    using a bitlen_nonneg[of a] bitlen_eq_zero_iff[of a] by (simp add: la_def)
  have lb0: "0 < lb"
    using b bitlen_nonneg[of b] bitlen_eq_zero_iff[of b] by (simp add: lb_def)
  have la: "2 ^ nat (la - 1) \<le> a" "a < 2 ^ nat la"
    using bitlen_bounds[OF a] by (simp_all add: la_def)
  have lb: "2 ^ nat (lb - 1) \<le> b" "b < 2 ^ nat lb"
    using bitlen_bounds[OF b] by (simp_all add: lb_def)
  have ra: "pow2 (la - 1) \<le> of_int a" "of_int a < pow2 la"
  proof -
    have "(of_int (2 ^ nat (la - 1)) :: rat) \<le> of_int a" using la(1) by (simp only: of_int_le_iff)
    then show "pow2 (la - 1) \<le> of_int a" using la0 by (simp add: pow2_nat)
    have "(of_int a :: rat) < of_int (2 ^ nat la)" using la(2) by (simp only: of_int_less_iff)
    then show "of_int a < pow2 la" using la0 by (simp add: pow2_nat)
  qed
  have rb: "pow2 (lb - 1) \<le> of_int b" "of_int b < pow2 lb"
  proof -
    have "(of_int (2 ^ nat (lb - 1)) :: rat) \<le> of_int b" using lb(1) by (simp only: of_int_le_iff)
    then show "pow2 (lb - 1) \<le> of_int b" using lb0 by (simp add: pow2_nat)
    have "(of_int b :: rat) < of_int (2 ^ nat lb)" using lb(2) by (simp only: of_int_less_iff)
    then show "of_int b < pow2 lb" using lb0 by (simp add: pow2_nat)
  qed
  have bpos: "(0::rat) < of_int b" using b by simp
  have up: "x < pow2 (la - lb + 1)"
  proof -
    have "of_int a < pow2 la" by (rule ra(2))
    also have "pow2 la = pow2 (la - lb + 1) * pow2 (lb - 1)"
      by (simp add: pow2_add[symmetric])
    also have "\<dots> \<le> pow2 (la - lb + 1) * of_int b"
      using rb(1) pow2_pos[of "la - lb + 1"] by (simp add: mult_left_mono)
    finally show ?thesis
      using bpos by (simp add: x pos_divide_less_eq)
  qed
  have low: "pow2 (la - lb - 1) \<le> x"
  proof -
    have "pow2 (la - lb - 1) * of_int b \<le> pow2 (la - lb - 1) * pow2 lb"
      using rb(2) pow2_pos[of "la - lb - 1"] by (simp add: mult_left_mono)
    also have "\<dots> = pow2 (la - 1)"
      by (simp add: pow2_add[symmetric])
    also have "\<dots> \<le> of_int a" by (rule ra(1))
    finally show ?thesis
      using bpos by (simp add: x pos_le_divide_eq)
  qed
  have fl: "floorLog2 x = (if pow2 (la - lb) \<le> x then la - lb else la - lb - 1)"
    by (simp add: floorLog2_def q la_def lb_def Let_def)
  show ?thesis
    using up low by (auto simp: fl)
qed

lemma roundHalfEven_near: "\<bar>of_int (roundHalfEven y) - y\<bar> \<le> 1 / 2"
proof -
  have "of_int \<lfloor>y\<rfloor> \<le> y" "y < of_int \<lfloor>y\<rfloor> + 1" by linarith+
  then show ?thesis
    by (auto simp: roundHalfEven_def Let_def abs_le_iff)
qed

lemma toDouble_near:
  assumes "0 < x" "- 1022 \<le> floorLog2 x"
  shows "\<bar>toDouble x - x\<bar> \<le> x / 2 ^ 53"
proof -
  define L where "L = floorLog2 x"
  define e where "e = L - 52"
  define m where "m = roundHalfEven (x / pow2 e)"
  have e: "max (floorLog2 x - 52) (- 1074) = e"
    using assms(2) by (simp add: e_def L_def)
  have t: "toDouble x = of_int m * pow2 e"
    using assms(1) by (simp add: toDouble_def Let_def e m_def)
  have "\<bar>of_int m - x / pow2 e\<bar> \<le> 1 / 2"
    unfolding m_def by (rule roundHalfEven_near)
  then have "\<bar>of_int m - x / pow2 e\<bar> * pow2 e \<le> 1 / 2 * pow2 e"
    using pow2_pos[of e] by (simp add: mult_right_mono)
  moreover have "\<bar>of_int m - x / pow2 e\<bar> * pow2 e = \<bar>of_int m * pow2 e - x\<bar>"
  proof -
    have "(of_int m - x / pow2 e) * pow2 e = of_int m * pow2 e - x"
      using pow2_pos[of e] by (simp add: left_diff_distrib)
    then have "\<bar>of_int m * pow2 e - x\<bar> = \<bar>of_int m - x / pow2 e\<bar> * \<bar>pow2 e\<bar>"
      by (simp add: abs_mult[symmetric])
    then show ?thesis using pow2_pos[of e] by simp
  qed
  ultimately have 1: "\<bar>toDouble x - x\<bar> \<le> pow2 e / 2"
    by (simp add: t)
  have "pow2 L \<le> x"
    using floorLog2_bounds[OF assms(1)] by (simp add: L_def)
  moreover have "pow2 L = pow2 e * 2 ^ 52"
    by (simp add: e_def pow2_add[symmetric, of "L - 52" 52, simplified] pow2_nat[of 52, simplified, symmetric])
  ultimately have "pow2 e / 2 \<le> x / 2 ^ 53"
    by simp
  with 1 show ?thesis by linarith
qed


lemma pow2_mono: "i \<le> j \<Longrightarrow> pow2 i \<le> pow2 j"
  by (simp add: pow2_powi power_int_increasing)

lemma double_literals:
  "toDouble (9 / 10) = 8106479329266893 / 2 ^ 53"
  "toDouble (1 / 10) = 3602879701896397 / 2 ^ 55"
  "toDouble (toDouble (1 / 10)) = toDouble (1 / 10)"
  by code_simp+

lemma toDouble_minus: "toDouble (- x) = - toDouble x"
  by (simp add: toDouble_def Let_def)

lemma toDouble_subnormal:
  assumes "0 < x" "floorLog2 x < - 1022"
  shows "toDouble x = of_int (roundHalfEven (x * 2 ^ 1074)) / 2 ^ 1074"
proof -
  have "max (floorLog2 x - 52) (- 1074) = - 1074" using assms(2) by simp
  then show ?thesis
    using assms(1) by (simp add: toDouble_def Let_def pow2_def)
qed

text \<open>
  Values the code's arithmetic gives: \<open>-0.1\<close>, the hour \<open>9 + 40 / 60\<close> and, with 64
  pixels to the hour, the top \<open>618.6666666666666\<close> and the height 64 of Q.
\<close>

lemma double_samples:
  "toDouble (- (1 / 10)) = - (3602879701896397 / 2 ^ 55)"
  "hourOf (clock 5 9 40) = 5441849549739349 / 2 ^ 49"
  "top_px (place sampleDeps (clock 5 12 0) exQ 2) = 5441849549739349 / 2 ^ 43"
  "height_px (place sampleDeps (clock 5 12 0) exQ 2) = 64"
  by code_simp+

lemma left_near:
  assumes "0 < k"
  shows "\<bar>toDouble (of_nat k * toDouble (1 / 10)) - of_nat k / 10\<bar> \<le> of_nat k / 10 / 2 ^ 52"
proof -
  define t :: rat where "t = 3602879701896397 / 2 ^ 55"
  define x :: rat where "x = of_nat k * t"
  have k1: "(1::rat) \<le> of_nat k" using assms by simp
  have tpos: "0 < t" by (simp add: t_def)
  have xt: "t \<le> x"
    unfolding x_def using k1 tpos by (simp add: mult_le_cancel_right1)
  have xpos: "0 < x" using xt tpos by linarith
  have "pow2 (- 4) \<le> t" by (simp add: pow2_def t_def)
  with xt have "pow2 (- 4) \<le> x" by linarith
  moreover have "x < pow2 (floorLog2 x + 1)"
    using floorLog2_bounds[OF xpos] by simp
  ultimately have "pow2 (- 4) < pow2 (floorLog2 x + 1)" by linarith
  then have "- 1022 \<le> floorLog2 x"
    using pow2_mono[of "floorLog2 x + 1" "- 4"] by (cases "floorLog2 x + 1 \<le> - 4") auto
  from toDouble_near[OF xpos this]
  have 1: "\<bar>toDouble x - x\<bar> \<le> x / 2 ^ 53" .
  have 2: "\<bar>x - of_nat k / 10\<bar> = of_nat k * (1 / (5 * 2 ^ 55))"
  proof -
    have "x - of_nat k / 10 = of_nat k * (1 / (5 * 2 ^ 55))"
      by (simp add: x_def t_def field_simps)
    then show ?thesis by simp
  qed
  have "\<bar>toDouble x - of_nat k / 10\<bar> \<le> \<bar>toDouble x - x\<bar> + \<bar>x - of_nat k / 10\<bar>"
    by linarith
  also have "\<dots> \<le> x / 2 ^ 53 + of_nat k * (1 / (5 * 2 ^ 55))"
    using 1 2 by linarith
  also have "\<dots> = of_nat k * (t / 2 ^ 53 + 1 / (5 * 2 ^ 55))"
    by (simp add: x_def algebra_simps)
  also have "\<dots> \<le> of_nat k * (1 / 10 / 2 ^ 52)"
  proof (rule mult_left_mono)
    show "t / 2 ^ 53 + 1 / (5 * 2 ^ 55) \<le> 1 / 10 / 2 ^ 52"
      by (simp add: t_def)
    show "(0::rat) \<le> of_nat k" by simp
  qed
  finally show ?thesis
    by (simp add: x_def t_def double_literals(2))
qed

lemma width_near: "\<bar>toDouble (9 / 10) - 9 / 10\<bar> \<le> 9 / 10 / 2 ^ 53"
proof -
  show ?thesis by (simp add: double_literals(1))
qed

section \<open>The column search\<close>

lemma findColumn_ge: "columnIndex \<le> findColumn s e columns columnIndex"
proof (induction s e columns columnIndex rule: findColumn.induct)
  case (1 aStart aEnd columns columnIndex)
  show ?case
    using "1.IH" by (subst findColumn.simps) auto
qed

lemma findColumn_free:
  "\<not> overlapsColumn s e (columnAt columns (findColumn s e columns columnIndex))"
proof (induction s e columns columnIndex rule: findColumn.induct)
  case (1 aStart aEnd columns columnIndex)
  show ?case
    using "1.IH"
    by (subst findColumn.simps) (auto simp: overlapsColumn_def)
qed

lemma findColumn_least:
  "columnIndex \<le> j \<Longrightarrow> j < findColumn s e columns columnIndex \<Longrightarrow>
   columnAt columns j \<noteq> [] \<and> overlapsColumn s e (columnAt columns j)"
proof (induction s e columns columnIndex rule: findColumn.induct)
  case (1 aStart aEnd columns columnIndex)
  show ?case
  proof (cases "length (columnAt columns columnIndex) = 0 \<or>
                \<not> overlapsColumn aStart aEnd (columnAt columns columnIndex)")
    case True
    then have "findColumn aStart aEnd columns columnIndex = columnIndex"
      by (subst findColumn.simps) auto
    with "1.prems" show ?thesis by simp
  next
    case False
    then have eq: "findColumn aStart aEnd columns columnIndex =
                   findColumn aStart aEnd columns (columnIndex + 1)"
      by (subst findColumn.simps) auto
    show ?thesis
    proof (cases "j = columnIndex")
      case True
      with False show ?thesis by auto
    next
      case False2: False
      with "1.prems" eq False "1.IH" show ?thesis by auto
    qed
  qed
qed

lemma findColumn_le: "findColumn s e columns 0 \<le> length columns"
proof (rule ccontr)
  assume "\<not> findColumn s e columns 0 \<le> length columns"
  then have "length columns < findColumn s e columns 0" by simp
  then have "columnAt columns (length columns) \<noteq> []"
    using findColumn_least[of 0 "length columns" s e columns] by simp
  then show False by (simp add: columnAt_def)
qed

lemma length_pushColumn:
  "k \<le> length columns \<Longrightarrow>
   length (pushColumn columns k entry) = (if k < length columns then length columns else Suc (length columns))"
  by (simp add: pushColumn_def)

lemma pushColumn_nth_same:
  "k \<le> length columns \<Longrightarrow> pushColumn columns k entry ! k = columnAt columns k @ [entry]"
  by (auto simp: pushColumn_def columnAt_def nth_append)

lemma pushColumn_nth_other:
  "k \<le> length columns \<Longrightarrow> j < length columns \<Longrightarrow> j \<noteq> k \<Longrightarrow>
   pushColumn columns k entry ! j = columns ! j"
  by (auto simp: pushColumn_def nth_append)


section \<open>Invariants of the day view's loop\<close>

lemma place_simps [simp]:
  "event (place deps cur ev k) = ev"
  "zIndex (place deps cur ev k) = 10 + k"
  "width (place deps cur ev k) = (if k = 0 then 1 else toDouble (9 / 10))"
  "left (place deps cur ev k) = (if k = 0 then 0 else toDouble (of_nat k * toDouble (1 / 10)))"
  by (simp_all add: place_def Let_def)

lemma placeEvent_eq:
  "placeEvent deps cur ev (cols, res) =
     (pushColumn cols (findColumn (adjustedStart cur ev) (adjustedEnd cur ev) cols 0)
        \<lparr> colEvent = ev, colEnd = adjustedEnd cur ev \<rparr>,
      res @ [place deps cur ev (findColumn (adjustedStart cur ev) (adjustedEnd cur ev) cols 0)])"
  by (simp add: placeEvent_def Let_def)

lemma linked_step:
  assumes "linked deps cur st"
  shows "linked deps cur (placeEvent deps cur ev st)"
proof -
  obtain cols res where st: "st = (cols, res)" by (cases st)
  define k where "k = findColumn (adjustedStart cur ev) (adjustedEnd cur ev) cols 0"
  define entry where "entry = \<lparr> colEvent = ev, colEnd = adjustedEnd cur ev \<rparr>"
  have kle: "k \<le> length cols" by (simp add: k_def findColumn_le)
  have new: "placeEvent deps cur ev st = (pushColumn cols k entry, res @ [place deps cur ev k])"
    by (simp add: st placeEvent_eq k_def entry_def)
  have len: "length cols \<le> length (pushColumn cols k entry)" "k < length (pushColumn cols k entry)"
    using kle by (auto simp: length_pushColumn)
  have old: "10 \<le> zIndex p \<and> zIndex p - 10 < length (pushColumn cols k entry) \<and>
        \<lparr> colEvent = event p, colEnd = adjustedEnd cur (event p) \<rparr>
          \<in> set (pushColumn cols k entry ! (zIndex p - 10)) \<and>
        p = place deps cur (event p) (zIndex p - 10)" if p: "p \<in> set res" for p
  proof -
    from assms p have h: "10 \<le> zIndex p" "zIndex p - 10 < length cols"
      "\<lparr> colEvent = event p, colEnd = adjustedEnd cur (event p) \<rparr> \<in> set (cols ! (zIndex p - 10))"
      "p = place deps cur (event p) (zIndex p - 10)"
      by (auto simp: linked_def st)
    have "\<lparr> colEvent = event p, colEnd = adjustedEnd cur (event p) \<rparr>
          \<in> set (pushColumn cols k entry ! (zIndex p - 10))"
    proof (cases "zIndex p - 10 = k")
      case True
      with h kle show ?thesis by (simp add: pushColumn_nth_same columnAt_def)
    next
      case False
      with h kle show ?thesis by (simp add: pushColumn_nth_other)
    qed
    with h len show ?thesis by auto
  qed
  have newp: "\<lparr> colEvent = ev, colEnd = adjustedEnd cur ev \<rparr> \<in> set (pushColumn cols k entry ! k)"
    using kle by (simp add: pushColumn_nth_same entry_def)
  show ?thesis
    unfolding new linked_def using old newp len by auto
qed

lemma linked_fold:
  "linked deps cur st \<Longrightarrow> linked deps cur (fold (placeEvent deps cur) xs st)"
  by (induction xs arbitrary: st) (simp_all add: linked_step)

lemma linked_init: "linked deps cur ([], [])"
  by (simp add: linked_def)

lemma overlap_contained:
  assumes "\<not> areIntervalsOverlapping (aS, aE) (start ev, endAt ev)" "contained cur ev"
  shows "\<not> halfOpenOverlap (timedInterval cur ev) (aS, aE)"
  using assms
  by (auto simp: areIntervalsOverlapping_def halfOpenOverlap_def timedInterval_def
      contained_def Let_def)


lemma msPerDay_hours: "addHours d 24 = d + msPerDay"
  by (simp add: addHours_def msPerHour_def msPerDay_def)

lemma contained_sameDay:
  "isSameDay cur (start ev) \<Longrightarrow> isSameDay cur (endAt ev) \<Longrightarrow> contained cur ev"
  by (simp add: contained_def adjustedStart_def adjustedEnd_def)

lemma contained_ordered:
  assumes "start ev \<le> endAt ev" "inDayFilter cur ev"
  shows "contained cur ev"
proof -
  have c: "startOfDay cur \<le> cur" "cur < startOfDay cur + msPerDay"
    by (rule startOfDay_le, rule startOfDay_gt)
  show ?thesis
    using assms c
    by (auto simp: contained_def adjustedStart_def adjustedEnd_def inDayFilter_def Let_def
        isSameDay_iff msPerDay_hours)
qed

lemma separated_step:
  assumes l: "linked deps cur st" and s: "separated cur (snd st)"
    and c: "\<forall>p \<in> set (snd st). contained cur (event p)"
  shows "separated cur (snd (placeEvent deps cur ev st))"
proof -
  obtain cols res where st: "st = (cols, res)" by (cases st)
  define k where "k = findColumn (adjustedStart cur ev) (adjustedEnd cur ev) cols 0"
  have new: "snd (placeEvent deps cur ev st) = res @ [place deps cur ev k]"
    by (simp add: st placeEvent_eq k_def)
  have free: "\<not> overlapsColumn (adjustedStart cur ev) (adjustedEnd cur ev) (columnAt cols k)"
    unfolding k_def by (rule findColumn_free)
  have last: "\<not> halfOpenOverlap (timedInterval cur (event p)) (timedInterval cur ev)"
    if p: "p \<in> set res" and z: "zIndex p = 10 + k" for p
  proof -
    from l p z have "k < length cols"
      "\<lparr> colEvent = event p, colEnd = adjustedEnd cur (event p) \<rparr> \<in> set (cols ! k)"
      by (auto simp: linked_def st)
    with free have "\<not> areIntervalsOverlapping (adjustedStart cur ev, adjustedEnd cur ev)
        (start (event p), endAt (event p))"
      by (auto simp: overlapsColumn_def columnAt_def list_ex_iff)
    moreover from c p have "contained cur (event p)" by (simp add: st)
    ultimately show ?thesis
      using overlap_contained[of "adjustedStart cur ev" "adjustedEnd cur ev" "event p" cur]
      by (simp add: timedInterval_def)
  qed
  show ?thesis
    unfolding new separated_def
  proof (intro allI impI)
    fix i j
    assume a: "i < j \<and> j < length (res @ [place deps cur ev k]) \<and>
      zIndex ((res @ [place deps cur ev k]) ! i) = zIndex ((res @ [place deps cur ev k]) ! j)"
    show "\<not> halfOpenOverlap (timedInterval cur (event ((res @ [place deps cur ev k]) ! i)))
            (timedInterval cur (event ((res @ [place deps cur ev k]) ! j)))"
    proof (cases "j < length res")
      case True
      with a s show ?thesis by (auto simp: separated_def st nth_append)
    next
      case False
      with a have j: "j = length res" and i: "i < length res" by auto
      from a j i have "zIndex (res ! i) = 10 + k" by (simp add: nth_append)
      with last[of "res ! i"] i show ?thesis by (simp add: j nth_append)
    qed
  qed
qed

lemma separated_fold:
  assumes "linked deps cur st" "separated cur (snd st)"
    "\<forall>p \<in> set (snd st). contained cur (event p)" "\<forall>ev \<in> set xs. contained cur ev"
  shows "separated cur (snd (fold (placeEvent deps cur) xs st))"
  using assms
proof (induction xs arbitrary: st)
  case Nil
  then show ?case by simp
next
  case (Cons x xs)
  have "linked deps cur (placeEvent deps cur x st)"
    using Cons.prems(1) by (rule linked_step)
  moreover have "separated cur (snd (placeEvent deps cur x st))"
    using Cons.prems(1-3) by (rule separated_step)
  moreover have "\<forall>p \<in> set (snd (placeEvent deps cur x st)). contained cur (event p)"
    using Cons.prems(3,4) by (cases st) (auto simp: placeEvent_eq)
  moreover have "\<forall>ev \<in> set xs. contained cur ev"
    using Cons.prems(4) by simp
  ultimately show ?case
    using Cons.IH by simp
qed

lemma set_jsSort_start: "set (dayEvents cur events) = {ev \<in> set events. inDayFilter cur ev}"
  by (simp add: dayEvents_sort_key)

lemma set_timeEvents:
  "set (timeEvents deps cur events) =
     {ev \<in> set events. inDayFilter cur ev \<and> \<not> allDay ev \<and> \<not> isMultiDayEvent deps ev}"
  by (auto simp: timeEvents_def set_jsSort_start)

lemma set_sortedEvents: "set (sortedEvents tevs) = set tevs"
  by (simp add: sortedEvents_sort_key)

lemma linked_dayView:
  "linked deps cur (dayViewColumns deps cur events, dayView deps cur events)"
  unfolding dayViewColumns_def dayView_def positionedEvents_def layoutState_def
  using linked_fold[OF linked_init] by simp

lemma scenario:
  assumes "\<not> isMultiDayEvent deps exA" "\<not> isMultiDayEvent deps exB"
    and "events = [exA, exB] \<or> events = [exB, exA]"
  shows "map (\<lambda>p. (eid (event p), zIndex p, width p, left p))
           (dayView deps (clock 5 12 0) events) =
         [(''A'', 10, 1, 0), (''B'', 11, toDouble (9 / 10), toDouble (1 / 10))]"
proof -
  have ia: "inDayFilter (clock 5 12 0) exA" "inDayFilter (clock 5 12 0) exB"
    by code_simp+
  have na: "\<not> allDay exA" "\<not> allDay exB"
    by (simp_all add: exA_def exB_def timed_def)
  have s1: "jsSort compareStart [exA, exB] = [exA, exB]"
    "jsSort compareStart [exB, exA] = [exA, exB]" by code_simp+
  have s2: "jsSort compareStartDuration [exA, exB] = [exA, exB]" by code_simp
  have d: "dayEvents (clock 5 12 0) events = [exA, exB]"
    using assms(3) by (auto simp: dayEvents_def ia s1)
  have t: "timeEvents deps (clock 5 12 0) events = [exA, exB]"
    using assms(1,2) by (simp add: timeEvents_def d na)
  have k0: "findColumn (adjustedStart (clock 5 12 0) exA) (adjustedEnd (clock 5 12 0) exA) [] 0 = 0"
    by code_simp
  have k1: "findColumn (adjustedStart (clock 5 12 0) exB) (adjustedEnd (clock 5 12 0) exB)
     [[\<lparr> colEvent = exA, colEnd = adjustedEnd (clock 5 12 0) exA \<rparr>]] 0 = 1"
    by code_simp
  have p0: "pushColumn [] 0 e = [[e]]" for e :: ColumnEntry by (simp add: pushColumn_def)
  have i: "eid exA = ''A''" "eid exB = ''B''" by (simp_all add: exA_def exB_def timed_def)
  have "dayView deps (clock 5 12 0) events =
      [place deps (clock 5 12 0) exA 0, place deps (clock 5 12 0) exB 1]"
    by (simp add: dayView_def positionedEvents_def layoutState_def t sortedEvents_def s2
        placeEvent_eq k0 k1 p0)
  then show ?thesis
    by (simp add: i double_literals(3))
qed

lemma positioned_column:
  assumes p: "p \<in> set (dayView deps cur events)"
  shows "\<exists>k < length (dayViewColumns deps cur events).
        event p \<in> colEvent ` set (dayViewColumns deps cur events ! k) \<and>
        p = place deps cur (event p) k \<and> zIndex p = 10 + k \<and>
        (k = 0 \<longrightarrow> width p = 1 \<and> left p = 0) \<and>
        (0 < k \<longrightarrow> width p = toDouble (9 / 10) \<and>
                 left p = toDouble (of_nat k * toDouble (1 / 10)) \<and>
                 \<bar>width p - 9 / 10\<bar> \<le> 9 / 10 / 2 ^ 53 \<and>
                 \<bar>left p - of_nat k / 10\<bar> \<le> of_nat k / 10 / 2 ^ 52)"
proof -
  let ?cols = "dayViewColumns deps cur events"
  define k where "k = zIndex p - 10"
  define ev where "ev = event p"
  from linked_dayView[of deps cur events] p
  have h: "10 \<le> zIndex p" "k < length ?cols"
    "\<lparr> colEvent = ev, colEnd = adjustedEnd cur ev \<rparr> \<in> set (?cols ! k)"
    "p = place deps cur ev k"
    unfolding k_def ev_def linked_def by auto
  have m: "ev \<in> colEvent ` set (?cols ! k)"
    using h(3) by force
  have z: "zIndex p = 10 + k" using h(1) by (simp add: k_def)
  have w0: "k = 0 \<longrightarrow> width p = 1 \<and> left p = 0"
    unfolding h(4) by simp
  have w1: "0 < k \<longrightarrow> width p = toDouble (9 / 10) \<and>
      left p = toDouble (of_nat k * toDouble (1 / 10)) \<and>
      \<bar>width p - 9 / 10\<bar> \<le> 9 / 10 / 2 ^ 53 \<and>
      \<bar>left p - of_nat k / 10\<bar> \<le> of_nat k / 10 / 2 ^ 52"
    unfolding h(4) using width_near left_near[of k] by simp
  show ?thesis
  proof (intro exI[of _ k] conjI)
    show "k < length ?cols" by (rule h(2))
    show "event p \<in> colEvent ` set (?cols ! k)" using m by (simp add: ev_def)
    show "p = place deps cur (event p) k" using h(4) by (simp add: ev_def)
    show "zIndex p = 10 + k" by (rule z)
    show "k = 0 \<longrightarrow> width p = 1 \<and> left p = 0" by (rule w0)
    show "0 < k \<longrightarrow> width p = toDouble (9 / 10) \<and>
      left p = toDouble (of_nat k * toDouble (1 / 10)) \<and>
      \<bar>width p - 9 / 10\<bar> \<le> 9 / 10 / 2 ^ 53 \<and>
      \<bar>left p - of_nat k / 10\<bar> \<le> of_nat k / 10 / 2 ^ 52" by (rule w1)
  qed
qed

lemma outside_day_excluded:
  assumes "start ev \<le> endAt ev"
    and "endAt ev < startOfDay cur \<or> startOfDay cur + msPerDay \<le> start ev"
  shows "\<not> inDayFilter cur ev"
  using assms startOfDay_le[of cur] startOfDay_gt[of cur]
  by (auto simp: inDayFilter_def Let_def isSameDay_iff)

lemma clipped_interval:
  assumes "start ev \<le> endAt ev" "inDayFilter cur ev"
  shows "timedInterval cur ev =
           (max (start ev) (startOfDay cur), min (endAt ev) (startOfDay cur + msPerDay))"
proof -
  have c: "startOfDay cur \<le> cur" "cur < startOfDay cur + msPerDay"
    by (rule startOfDay_le, rule startOfDay_gt)
  show ?thesis
    using assms c
    by (auto simp: timedInterval_def adjustedStart_def adjustedEnd_def inDayFilter_def Let_def
        isSameDay_iff msPerDay_hours)
qed

lemma mset_timeEvents:
  "mset xs = mset ys \<Longrightarrow> mset (timeEvents deps cur xs) = mset (timeEvents deps cur ys)"
proof -
  assume "mset xs = mset ys"
  then have "mset (filter (inDayFilter cur) xs) = mset (filter (inDayFilter cur) ys)"
    by simp
  then show ?thesis
    by (simp add: timeEvents_def dayEvents_sort_key)
qed

lemma layoutPrefix_Suc:
  assumes "n < length tevs"
  shows "layoutPrefix deps cur tevs (Suc n) =
         placeEvent deps cur (sortedEvents tevs ! n) (layoutPrefix deps cur tevs n)"
proof -
  have "n < length (sortedEvents tevs)"
    using assms by (simp add: sortedEvents_sort_key)
  then show ?thesis
    by (simp add: layoutPrefix_def take_Suc_conv_app_nth)
qed

lemma layoutPrefix_all: "layoutPrefix deps cur tevs (length tevs) = layoutState deps cur tevs"
  by (simp add: layoutPrefix_def layoutState_def sortedEvents_sort_key)

section \<open>The arrays of one render\<close>

lemma dayViewPass_frame:
  "r < nextRef h \<Longrightarrow> arrays (fst (dayViewPass deps cur h eventsRef)) r = arrays h r"
  by (simp add: dayViewPass_def arrayFilter_def arraySort_def arraySpread_def alloc_def
      Let_def split_def)

lemma dayViewPass_result:
  "eventsRef < nextRef h \<Longrightarrow>
   snd (snd (dayViewPass deps cur h eventsRef)) = dayView deps cur (arrays h eventsRef)"
  by (simp add: dayViewPass_def arrayFilter_def arraySort_def arraySpread_def alloc_def
      Let_def split_def dayView_def positionedEvents_def layoutState_def timeEvents_def
      dayEvents_def sortedEvents_def)

lemma dayViewPass_allDay:
  "eventsRef < nextRef h \<Longrightarrow>
   arrays (fst (dayViewPass deps cur h eventsRef)) (fst (snd (dayViewPass deps cur h eventsRef))) =
     dayAllDayEvents deps cur (arrays h eventsRef)"
  by (simp add: dayViewPass_def arrayFilter_def arraySort_def arraySpread_def alloc_def
      Let_def split_def dayAllDayEvents_def dayEvents_def)

lemma events_of_result:
  "event ` set (snd (fold (placeEvent deps cur) xs st)) = event ` set (snd st) \<union> set xs"
proof (induction xs arbitrary: st)
  case Nil
  then show ?case by simp
next
  case (Cons x xs)
  show ?case
    unfolding fold_simps Cons.IH
    by (cases st) (auto simp: placeEvent_eq)
qed

lemma events_of_dayView:
  "event ` set (dayView deps cur events) = set (timeEvents deps cur events)"
  by (simp add: dayView_def positionedEvents_def layoutState_def events_of_result
      set_sortedEvents)

lemma dayViewPass_nextRef:
  "nextRef (fst (dayViewPass deps cur h eventsRef)) = nextRef h + 4"
  by (simp add: dayViewPass_def arrayFilter_def arraySort_def arraySpread_def alloc_def
      Let_def split_def)

lemma dayViewPass_again:
  assumes "eventsRef < nextRef h"
  shows "snd (snd (dayViewPass deps cur (fst (dayViewPass deps cur h eventsRef)) eventsRef)) =
         snd (snd (dayViewPass deps cur h eventsRef))"
proof -
  let ?h' = "fst (dayViewPass deps cur h eventsRef)"
  have "eventsRef < nextRef ?h'"
    using assms by (simp add: dayViewPass_nextRef)
  then have "snd (snd (dayViewPass deps cur ?h' eventsRef)) = dayView deps cur (arrays ?h' eventsRef)"
    by (rule dayViewPass_result)
  also have "arrays ?h' eventsRef = arrays h eventsRef"
    using assms by (rule dayViewPass_frame)
  also have "dayView deps cur (arrays h eventsRef) = snd (snd (dayViewPass deps cur h eventsRef))"
    using assms by (rule dayViewPass_result[symmetric])
  finally show ?thesis .
qed

section \<open>Facts about the week view\<close>

lemma weekAllDayEvents_shown:
  "ev \<in> set (weekAllDayEvents True isWeekend weekStart weekEnd events) \<longleftrightarrow>
     ev \<in> set events \<and>
     (isWithinInterval (start ev) (weekStart, weekEnd) \<or>
      isWithinInterval (if allDay ev then endAt ev - msPerDay else endAt ev) (weekStart, weekEnd))"
  by (auto simp: weekAllDayEvents_def Let_def subDays_def)

lemma weekAllDayEvents_hidden:
  "ev \<in> set (weekAllDayEvents False isWeekend weekStart weekEnd events) \<longleftrightarrow>
     ev \<in> set events \<and>
     list_ex (\<lambda>day. \<not> isWeekend day)
       (eachDayOfInterval
          (max (start ev) weekStart,
           min (if allDay ev then endAt ev - msPerDay else endAt ev) weekEnd))"
proof -
  have m: "(if a < b then b else a) = max a b" "(if a > b then b else a) = min a b"
    for a b :: int by auto
  show ?thesis
    by (simp add: weekAllDayEvents_def Let_def subDays_def m)
qed

lemma cells_count:
  assumes "distinct (map startOfDay allDays)"
  shows "length (filter (\<lambda>day. isSameDay x day \<and> Q day) allDays) =
         (if \<exists>day \<in> set allDays. isSameDay x day \<and> Q day then 1 else 0)"
  using assms
proof (induction allDays)
  case Nil
  then show ?case by simp
next
  case (Cons d ds)
  show ?case
  proof (cases "isSameDay x d")
    case True
    then have none: "\<forall>day \<in> set ds. \<not> isSameDay x day"
      using Cons.prems by (auto simp: isSameDay_def)
    then have "filter (\<lambda>day. isSameDay x day \<and> Q day) ds = []"
      by (simp add: filter_empty_conv)
    with True none show ?thesis by auto
  next
    case False
    with Cons show ?thesis by simp
  qed
qed

lemma cells_listing:
  assumes "ev \<in> set ovs"
  shows "filter (\<lambda>cell. P cell \<and> ev \<in> set (cellOverflowEvents cell))
           (overflowCells showWeekends isWeekend ovs allDays) =
         map (\<lambda>day. \<lparr> cellDay = day, isDayVisible = (showWeekends \<or> \<not> isWeekend day),
                       cellOverflowEvents = dayOverflowEvents ovs day \<rparr>)
           (filter (\<lambda>day. isSameDay (start ev) day \<and>
                      P \<lparr> cellDay = day, isDayVisible = (showWeekends \<or> \<not> isWeekend day),
                          cellOverflowEvents = dayOverflowEvents ovs day \<rparr>) allDays)"
  using assms
  by (auto simp: overflowCells_def filter_map comp_def dayOverflowEvents_def
      intro!: arg_cong[where f = "map _"] filter_cong)

section \<open>Facts about lane packing\<close>

lemma covers_overlap: "coversDay d a \<Longrightarrow> coversDay d b \<Longrightarrow> daysOverlap a b"
  using msPerDay_pos by (auto simp: coversDay_def daysOverlap_def)

lemma laneOk_count:
  "laneOk lane \<Longrightarrow>
   length (filter (coversDay d) lane) = (if list_ex (coversDay d) lane then 1 else 0)"
proof (induction lane)
  case Nil
  then show ?case by simp
next
  case (Cons x xs)
  then have ok: "laneOk xs" and px: "\<forall>y \<in> set xs. \<not> daysOverlap y x"
    by (simp_all add: laneOk_def)
  show ?case
  proof (cases "coversDay d x")
    case True
    then have "\<forall>y \<in> set xs. \<not> coversDay d y"
      using px covers_overlap by blast
    then have "filter (coversDay d) xs = []" by (simp add: filter_empty_conv)
    with True show ?thesis by simp
  next
    case False
    with Cons.IH[OF ok] show ?thesis by simp
  qed
qed

lemma lanes_count:
  "\<forall>lane \<in> set lanes. laneOk lane \<Longrightarrow>
   length (filter (coversDay d) (concat lanes)) = length (filter (list_ex (coversDay d)) lanes)"
  by (induction lanes) (simp_all add: laneOk_count)

lemma findLane_le: "findLane ev lanes \<le> length lanes"
  by (induction lanes) simp_all

lemma findLane_free:
  "findLane ev lanes < length lanes \<Longrightarrow> \<not> list_ex (daysOverlap ev) (lanes ! findLane ev lanes)"
  by (induction lanes) (auto split: if_splits)

lemma set_update_member0:
  "l \<in> set (ls[i := v]) \<Longrightarrow> l = v \<or> l \<in> set ls"
  using set_update_subset_insert[of ls i v] by auto

lemma addToLane_ok:
  assumes "\<forall>lane \<in> set lanes. laneOk lane"
  shows "\<forall>lane \<in> set (addToLane ev lanes). laneOk lane"
proof (cases "findLane ev lanes < length lanes")
  case True
  let ?i = "findLane ev lanes"
  have "laneOk (lanes ! ?i)" using assms True by simp
  moreover have "\<forall>y \<in> set (lanes ! ?i). \<not> daysOverlap ev y"
    using findLane_free[OF True] by (simp add: list_ex_iff)
  ultimately have "laneOk (lanes ! ?i @ [ev])"
    by (simp add: laneOk_def sorted_wrt_append)
  then show ?thesis
    using assms True
    by (auto simp: addToLane_def Let_def dest!: set_update_member0)
next
  case False
  then show ?thesis
    using assms by (auto simp: addToLane_def Let_def laneOk_def)
qed

lemma mset_concat_update:
  "i < length ls \<Longrightarrow> mset (concat (ls[i := ls ! i @ [x]])) = add_mset x (mset (concat ls))"
proof (induction ls arbitrary: i)
  case Nil
  then show ?case by simp
next
  case (Cons l ls)
  then show ?case by (cases i) simp_all
qed

lemma addToLane_mset:
  "mset (concat (addToLane ev lanes)) = add_mset ev (mset (concat lanes))"
  by (simp add: addToLane_def Let_def mset_concat_update)



lemma lanes_fold_ok:
  "\<forall>lane \<in> set lanes. laneOk lane \<Longrightarrow> \<forall>lane \<in> set (fold addToLane xs lanes). laneOk lane"
proof (induction xs arbitrary: lanes)
  case Nil
  then show ?case by simp
next
  case (Cons x xs)
  have "\<forall>lane \<in> set (addToLane x lanes). laneOk lane"
    using Cons.prems by (rule addToLane_ok)
  then show ?case
    using Cons.IH[of "addToLane x lanes"] by simp
qed

lemma lanes_fold_mset:
  "mset (concat (fold addToLane xs lanes)) = mset xs + mset (concat lanes)"
  by (induction xs arbitrary: lanes) (simp_all add: addToLane_mset)

lemma compareLaneOrder_le:
  "compareLaneOrder a b \<le> 0 \<longleftrightarrow>
     (start a, - (endAt a - start a)) \<le> (start b, - (endAt b - start b))"
  by (auto simp: compareLaneOrder_def less_eq_prod_def)

lemma placeIntoLanes_sort_key:
  "placeIntoLanes events = fold addToLane (sort_key laneOrderKey events) []"
  by (simp add: placeIntoLanes_def jsSort_sort_key[of compareLaneOrder laneOrderKey]
      compareLaneOrder_le laneOrderKey_def)

lemma weekOverflow_order:
  assumes "mset xs = mset ys" "inj_on laneOrderKey (set xs)"
  shows "weekOverflow xs = weekOverflow ys"
proof -
  have "sort_key laneOrderKey xs = sort_key laneOrderKey ys"
    using assms by (rule sort_key_eq_sort_key)
  then show ?thesis
    by (simp add: weekOverflow_def useMultiDayOverflow_def placeIntoLanes_sort_key)
qed

lemma mset_weekAllDayEvents:
  "mset xs = mset ys \<Longrightarrow>
   mset (weekAllDayEvents sw iw ws we xs) = mset (weekAllDayEvents sw iw ws we ys)"
  by (simp add: weekAllDayEvents_def)

lemma placeIntoLanes_ok: "\<forall>lane \<in> set (placeIntoLanes events). laneOk lane"
  unfolding placeIntoLanes_def by (rule lanes_fold_ok) simp

lemma placeIntoLanes_mset: "mset (concat (placeIntoLanes events)) = mset events"
  by (simp add: placeIntoLanes_def lanes_fold_mset
      jsSort_sort_key[of compareLaneOrder "\<lambda>ev. (start ev, - (endAt ev - start ev))"]
      compareLaneOrder_le)

lemma length_filter_mset:
  "mset xs = mset ys \<Longrightarrow> length (filter P xs) = length (filter P ys)"
  by (metis mset_filter size_mset)

section \<open>Day view: the claims\<close>

text \<open>
  C1. Two events of the day view's output that were assigned the same column (they have the
  same z-index, which is 10 plus the column index) never have overlapping intervals,
  where the interval of an event is the one clipped to the rendered day and overlap is
  \<open>aStart < bEnd && bStart < aEnd\<close>.  The events are assumed to satisfy the data
  model's invariant \<open>start \<le> end\<close>, or else to lie within the rendered day.
\<close>

theorem column_members_disjoint:
  assumes wf: "\<forall>ev \<in> set events. start ev \<le> endAt ev \<or>
                 (isSameDay cur (start ev) \<and> isSameDay cur (endAt ev))"
    and ij: "i < j" "j < length (dayView deps cur events)"
    and col: "zIndex (dayView deps cur events ! i) = zIndex (dayView deps cur events ! j)"
  shows "\<not> halfOpenOverlap (timedInterval cur (event (dayView deps cur events ! i)))
                           (timedInterval cur (event (dayView deps cur events ! j)))"
proof -
  have "\<forall>ev \<in> set (sortedEvents (timeEvents deps cur events)). contained cur ev"
    using wf by (auto simp: set_sortedEvents set_timeEvents contained_sameDay contained_ordered)
  then have "separated cur (dayView deps cur events)"
    unfolding dayView_def positionedEvents_def layoutState_def
    by (intro separated_fold linked_init) (simp_all add: separated_def)
  with ij col show ?thesis
    unfolding separated_def by blast
qed

theorem column_members_disjoint_witness:
  "zIndex (dayView sampleDeps (clock 5 12 0) [exA, exC] ! 0) =
   zIndex (dayView sampleDeps (clock 5 12 0) [exA, exC] ! 1) \<and>
   \<not> halfOpenOverlap
       (timedInterval (clock 5 12 0) (event (dayView sampleDeps (clock 5 12 0) [exA, exC] ! 0)))
       (timedInterval (clock 5 12 0) (event (dayView sampleDeps (clock 5 12 0) [exA, exC] ! 1)))"
proof -
  let ?out = "dayView sampleDeps (clock 5 12 0) [exA, exC]"
  have wf: "\<forall>ev \<in> set [exA, exC]. start ev \<le> endAt ev \<or>
      (isSameDay (clock 5 12 0) (start ev) \<and> isSameDay (clock 5 12 0) (endAt ev))"
    by code_simp
  have ij: "(0::nat) < 1" "1 < length ?out"
    by simp code_simp
  have col: "zIndex (?out ! 0) = zIndex (?out ! 1)"
    by code_simp
  from column_members_disjoint[OF wf ij col] col show ?thesis
    by simp
qed

text \<open>
  C2 says that an event fully outside the rendered day is in no output of the day view.
  The all-day event of Saturday (day 2; its exclusive end is the start of Sunday, day 3)
  is not on Sunday, yet with Sunday rendered the day view lists it in its all-day section:
  its end passes \<open>isSameDay(currentDate, eventEnd)\<close>.  The week view that starts on
  that Sunday takes the end of an all-day event one day earlier and leaves the event out.
\<close>

theorem previous_all_day_event_shown:
  "dayAllDayEvents deps (clock 3 12 0) [exSaturday] = [exSaturday] \<and>
   startOfDay (clock 3 12 0) = endAt exSaturday \<and>
   weekAllDayEvents True isWeekend (clock 3 0 0) (clock 9 0 0) [exSaturday] = []"
proof -
  have i: "inDayFilter (clock 3 12 0) exSaturday" by code_simp
  have a: "allDay exSaturday" by code_simp
  have s: "jsSort compareStart [exSaturday] = [exSaturday]" by (simp add: jsSort_def)
  have 1: "dayAllDayEvents deps (clock 3 12 0) [exSaturday] = [exSaturday]"
    by (simp add: dayAllDayEvents_def dayEvents_def i a s)
  have 2: "startOfDay (clock 3 12 0) = endAt exSaturday" by code_simp
  have n: "\<not> isWithinInterval (start exSaturday) (clock 3 0 0, clock 9 0 0)"
     "\<not> isWithinInterval (endAt exSaturday - msPerDay) (clock 3 0 0, clock 9 0 0)"
    by code_simp+
  have "exSaturday \<notin> set (weekAllDayEvents True isWeekend (clock 3 0 0) (clock 9 0 0) [exSaturday])"
    using n a by (simp add: weekAllDayEvents_shown)
  moreover have "set (weekAllDayEvents True isWeekend (clock 3 0 0) (clock 9 0 0) [exSaturday])
      \<subseteq> {exSaturday}"
    by (auto simp: weekAllDayEvents_shown)
  ultimately have 3: "weekAllDayEvents True isWeekend (clock 3 0 0) (clock 9 0 0) [exSaturday] = []"
    by (cases "weekAllDayEvents True isWeekend (clock 3 0 0) (clock 9 0 0) [exSaturday]") auto
  from 1 2 3 show ?thesis by simp
qed

text \<open>
  C4, as amended. The events are processed in the order of a stable sort by start
  ascending and then by duration in whole minutes (rounded towards zero) descending (a
  sorted rearrangement of the timed events in which ties keep their order);
  the loop starts from no columns and takes the sorted events one by one; an event goes to
  the lowest column none of whose members' intervals the event's clipped interval
  overlaps, every lower column having a member that overlaps it, and a new column is
  appended exactly when every existing column has such a member.
\<close>

theorem sorted_then_first_free_column:
  "sortedEvents tevs = sort_key startDurationKey tevs \<and>
   sorted (map startDurationKey (sortedEvents tevs)) \<and>
   mset (sortedEvents tevs) = mset tevs \<and>
   layoutPrefix deps cur tevs 0 = ([], []) \<and>
   layoutPrefix deps cur tevs (length tevs) = layoutState deps cur tevs \<and>
   (\<forall>n < length tevs.
      let ev = sortedEvents tevs ! n;
          columns = fst (layoutPrefix deps cur tevs n);
          aStart = adjustedStart cur ev; aEnd = adjustedEnd cur ev;
          k = findColumn aStart aEnd columns 0
      in layoutPrefix deps cur tevs (Suc n) = placeEvent deps cur ev (layoutPrefix deps cur tevs n) \<and>
         k \<le> length columns \<and>
         (\<forall>j < k. overlapsColumn aStart aEnd (columns ! j)) \<and>
         (k < length columns \<longrightarrow> \<not> overlapsColumn aStart aEnd (columns ! k)) \<and>
         fst (layoutPrefix deps cur tevs (Suc n)) =
           (if k < length columns
            then columns[k := columns ! k @ [\<lparr> colEvent = ev, colEnd = aEnd \<rparr>]]
            else columns @ [[\<lparr> colEvent = ev, colEnd = aEnd \<rparr>]]))"
proof (intro conjI allI impI)
  show "sortedEvents tevs = sort_key startDurationKey tevs"
    by (rule sortedEvents_sort_key)
  show "sorted (map startDurationKey (sortedEvents tevs))"
    by (simp add: sortedEvents_sort_key)
  show "mset (sortedEvents tevs) = mset tevs"
    by (simp add: sortedEvents_sort_key)
  show "layoutPrefix deps cur tevs 0 = ([], [])"
    by (simp add: layoutPrefix_def)
  show "layoutPrefix deps cur tevs (length tevs) = layoutState deps cur tevs"
    by (rule layoutPrefix_all)
next
  fix n assume n: "n < length tevs"
  define ev where "ev = sortedEvents tevs ! n"
  define columns where "columns = fst (layoutPrefix deps cur tevs n)"
  define k where "k = findColumn (adjustedStart cur ev) (adjustedEnd cur ev) columns 0"
  have step: "layoutPrefix deps cur tevs (Suc n) =
      placeEvent deps cur ev (layoutPrefix deps cur tevs n)"
    unfolding ev_def using n by (rule layoutPrefix_Suc)
  have kle: "k \<le> length columns"
    unfolding k_def by (rule findColumn_le)
  have below: "\<forall>j < k. overlapsColumn (adjustedStart cur ev) (adjustedEnd cur ev) (columns ! j)"
  proof (intro allI impI)
    fix j assume j: "j < k"
    then have "overlapsColumn (adjustedStart cur ev) (adjustedEnd cur ev) (columnAt columns j)"
      using findColumn_least[of 0 j "adjustedStart cur ev" "adjustedEnd cur ev" columns]
      by (simp add: k_def)
    with j kle show "overlapsColumn (adjustedStart cur ev) (adjustedEnd cur ev) (columns ! j)"
      by (simp add: columnAt_def)
  qed
  have free: "k < length columns \<longrightarrow>
      \<not> overlapsColumn (adjustedStart cur ev) (adjustedEnd cur ev) (columns ! k)"
    using findColumn_free[of "adjustedStart cur ev" "adjustedEnd cur ev" columns 0]
    by (auto simp: k_def columnAt_def)
  have cols: "fst (layoutPrefix deps cur tevs (Suc n)) =
           (if k < length columns
            then columns[k := columns ! k @ [\<lparr> colEvent = ev, colEnd = adjustedEnd cur ev \<rparr>]]
            else columns @ [[\<lparr> colEvent = ev, colEnd = adjustedEnd cur ev \<rparr>]])"
    using kle unfolding step
    by (cases "layoutPrefix deps cur tevs n")
       (auto simp: placeEvent_eq columns_def k_def pushColumn_def)
  show "let ev = sortedEvents tevs ! n;
          columns = fst (layoutPrefix deps cur tevs n);
          aStart = adjustedStart cur ev; aEnd = adjustedEnd cur ev;
          k = findColumn aStart aEnd columns 0
      in layoutPrefix deps cur tevs (Suc n) = placeEvent deps cur ev (layoutPrefix deps cur tevs n) \<and>
         k \<le> length columns \<and>
         (\<forall>j < k. overlapsColumn aStart aEnd (columns ! j)) \<and>
         (k < length columns \<longrightarrow> \<not> overlapsColumn aStart aEnd (columns ! k)) \<and>
         fst (layoutPrefix deps cur tevs (Suc n)) =
           (if k < length columns
            then columns[k := columns ! k @ [\<lparr> colEvent = ev, colEnd = aEnd \<rparr>]]
            else columns @ [[\<lparr> colEvent = ev, colEnd = aEnd \<rparr>]])"
    unfolding Let_def
    using step kle below free cols
    unfolding ev_def columns_def k_def by blast
qed


theorem sorted_then_first_free_column_witness:
  "sortedEvents [exB, exA] ! 1 = exB \<and>
   overlapsColumn (adjustedStart (clock 5 12 0) exB) (adjustedEnd (clock 5 12 0) exB)
     (fst (layoutPrefix sampleDeps (clock 5 12 0) [exB, exA] 1) ! 0) \<and>
   layoutPrefix sampleDeps (clock 5 12 0) [exB, exA] (Suc 1) =
     placeEvent sampleDeps (clock 5 12 0) exB (layoutPrefix sampleDeps (clock 5 12 0) [exB, exA] 1)"
proof -
  have n: "(1::nat) < length [exB, exA]" by simp
  have e: "sortedEvents [exB, exA] ! 1 = exB" by code_simp
  have k: "findColumn (adjustedStart (clock 5 12 0) exB) (adjustedEnd (clock 5 12 0) exB)
             (fst (layoutPrefix sampleDeps (clock 5 12 0) [exB, exA] 1)) 0 = 1"
    by code_simp
  note t = sorted_then_first_free_column[of "[exB, exA]" sampleDeps "clock 5 12 0"]
  from conjunct2[OF conjunct2[OF conjunct2[OF conjunct2[OF conjunct2[OF t]]]]] n
  have "let ev = sortedEvents [exB, exA] ! 1;
          columns = fst (layoutPrefix sampleDeps (clock 5 12 0) [exB, exA] 1);
          aStart = adjustedStart (clock 5 12 0) ev; aEnd = adjustedEnd (clock 5 12 0) ev;
          k = findColumn aStart aEnd columns 0
      in layoutPrefix sampleDeps (clock 5 12 0) [exB, exA] (Suc 1) =
           placeEvent sampleDeps (clock 5 12 0) ev
             (layoutPrefix sampleDeps (clock 5 12 0) [exB, exA] 1) \<and>
         k \<le> length columns \<and>
         (\<forall>j < k. overlapsColumn aStart aEnd (columns ! j)) \<and>
         (k < length columns \<longrightarrow> \<not> overlapsColumn aStart aEnd (columns ! k)) \<and>
         fst (layoutPrefix sampleDeps (clock 5 12 0) [exB, exA] (Suc 1)) =
           (if k < length columns
            then columns[k := columns ! k @ [\<lparr> colEvent = ev, colEnd = aEnd \<rparr>]]
            else columns @ [[\<lparr> colEvent = ev, colEnd = aEnd \<rparr>]])"
    by blast
  then show ?thesis
    unfolding Let_def e k using e by simp
qed

text \<open>
  C4 as stated fails: S and L start together and L is longer, by less than a minute; the
  two durations are both one whole minute, the sort leaves S first and S gets column 0.
\<close>

theorem longer_event_not_first:
  "start exShort = start exLonger \<and>
   endAt exShort - start exShort < endAt exLonger - start exLonger \<and>
   sortedEvents [exShort, exLonger] = [exShort, exLonger] \<and>
   map (\<lambda>p. (eid (event p), zIndex p)) (dayView sampleDeps (clock 5 12 0) [exShort, exLonger]) =
     [(''S'', 10), (''L'', 11)]"
  by code_simp

text \<open>
  C5. Every positioned event of the day view sits in some column \<open>k\<close>: its z-index is
  \<open>10 + k\<close>; for \<open>k = 0\<close> its width is 1 and its left offset 0, for \<open>k > 0\<close> its width
  is 0.9 and its left offset \<open>k \<times> 0.1\<close>, in the code's numbers: 0.9 and 0.1 are the
  doubles of these literals and the product is the product of doubles, so that the width
  is 9/10 and the left offset k/10 up to a relative error of \<open>2^-52\<close>; a higher column
  gives a higher z-index.  Events A, 09:00 to 10:00, and B, 09:30 to 10:30, rendered on
  their day and given in either order: A is in column 0 with width 1 and left offset 0, B
  in column 1 with width 0.9 and left offset 0.1.
\<close>

theorem width_offset_policy:
  "(\<forall>p \<in> set (dayView deps cur events).
      \<exists>k < length (dayViewColumns deps cur events).
        event p \<in> colEvent ` set (dayViewColumns deps cur events ! k) \<and>
        p = place deps cur (event p) k \<and> zIndex p = 10 + k \<and>
        (k = 0 \<longrightarrow> width p = 1 \<and> left p = 0) \<and>
        (0 < k \<longrightarrow> width p = toDouble (9 / 10) \<and>
                 left p = toDouble (of_nat k * toDouble (1 / 10)) \<and>
                 \<bar>width p - 9 / 10\<bar> \<le> 9 / 10 / 2 ^ 53 \<and>
                 \<bar>left p - of_nat k / 10\<bar> \<le> of_nat k / 10 / 2 ^ 52)) \<and>
   (\<forall>ev ev' k k'. k < k' \<longrightarrow> zIndex (place deps cur ev k) < zIndex (place deps cur ev' k')) \<and>
   (\<not> isMultiDayEvent deps exA \<and> \<not> isMultiDayEvent deps exB \<longrightarrow>
      map (\<lambda>p. (eid (event p), zIndex p, width p, left p))
        (dayView deps (clock 5 12 0) [exA, exB]) =
      [(''A'', 10, 1, 0), (''B'', 11, toDouble (9 / 10), toDouble (1 / 10))] \<and>
      map (\<lambda>p. (eid (event p), zIndex p, width p, left p))
        (dayView deps (clock 5 12 0) [exB, exA]) =
      [(''A'', 10, 1, 0), (''B'', 11, toDouble (9 / 10), toDouble (1 / 10))]) \<and>
   toDouble (9 / 10) = 8106479329266893 / 2 ^ 53 \<and>
   toDouble (1 / 10) = 3602879701896397 / 2 ^ 55"
proof (intro conjI ballI allI impI)
  fix p assume "p \<in> set (dayView deps cur events)"
  then show "\<exists>k < length (dayViewColumns deps cur events).
        event p \<in> colEvent ` set (dayViewColumns deps cur events ! k) \<and>
        p = place deps cur (event p) k \<and> zIndex p = 10 + k \<and>
        (k = 0 \<longrightarrow> width p = 1 \<and> left p = 0) \<and>
        (0 < k \<longrightarrow> width p = toDouble (9 / 10) \<and>
                 left p = toDouble (of_nat k * toDouble (1 / 10)) \<and>
                 \<bar>width p - 9 / 10\<bar> \<le> 9 / 10 / 2 ^ 53 \<and>
                 \<bar>left p - of_nat k / 10\<bar> \<le> of_nat k / 10 / 2 ^ 52)"
    by (rule positioned_column)
next
  fix ev ev' :: CalendarEvent and k k' :: nat
  assume "k < k'"
  then show "zIndex (place deps cur ev k) < zIndex (place deps cur ev' k')" by simp
next
  assume a: "\<not> isMultiDayEvent deps exA \<and> \<not> isMultiDayEvent deps exB"
  then show "map (\<lambda>p. (eid (event p), zIndex p, width p, left p))
        (dayView deps (clock 5 12 0) [exA, exB]) =
      [(''A'', 10, 1, 0), (''B'', 11, toDouble (9 / 10), toDouble (1 / 10))]"
    using scenario[of deps "[exA, exB]"] by simp
  from a show "map (\<lambda>p. (eid (event p), zIndex p, width p, left p))
        (dayView deps (clock 5 12 0) [exB, exA]) =
      [(''A'', 10, 1, 0), (''B'', 11, toDouble (9 / 10), toDouble (1 / 10))]"
    using scenario[of deps "[exB, exA]"] by simp
next
  show "toDouble (9 / 10) = 8106479329266893 / 2 ^ 53"
    by (rule double_literals(1))
  show "toDouble (1 / 10) = 3602879701896397 / 2 ^ 55"
    by (rule double_literals(2))
qed

theorem width_offset_policy_witness:
  "map (\<lambda>p. (eid (event p), zIndex p, width p, left p))
     (dayView sampleDeps (clock 5 12 0) [exB, exA]) =
   [(''A'', 10, 1, 0), (''B'', 11, toDouble (9 / 10), toDouble (1 / 10))] \<and>
   map (\<lambda>p. (eid (event p), zIndex p, width p, left p))
     (dayView sampleDeps (clock 5 12 0) [exR, exB, exQ, exA]) =
   [(''A'', 10, 1, 0),
    (''B'', 11, 8106479329266893 / 2 ^ 53, 3602879701896397 / 2 ^ 55),
    (''Q'', 12, 8106479329266893 / 2 ^ 53, 3602879701896397 / 2 ^ 54),
    (''R'', 13, 8106479329266893 / 2 ^ 53, 1351079888211149 / 2 ^ 52)] \<and>
   (\<exists>k < length (dayViewColumns sampleDeps (clock 5 12 0) [exR, exB, exQ, exA]).
      zIndex (dayView sampleDeps (clock 5 12 0) [exR, exB, exQ, exA] ! 3) = 10 + k \<and>
      width (dayView sampleDeps (clock 5 12 0) [exR, exB, exQ, exA] ! 3) = toDouble (9 / 10) \<and>
      left (dayView sampleDeps (clock 5 12 0) [exR, exB, exQ, exA] ! 3) =
        toDouble (of_nat k * toDouble (1 / 10)))"
proof -
  let ?out = "dayView sampleDeps (clock 5 12 0) [exR, exB, exQ, exA]"
  note scen = width_offset_policy[of sampleDeps "clock 5 12 0" "[exB, exA]"]
  note policy = width_offset_policy[of sampleDeps "clock 5 12 0" "[exR, exB, exQ, exA]"]
  have a: "\<not> isMultiDayEvent sampleDeps exA \<and> \<not> isMultiDayEvent sampleDeps exB"
    by code_simp
  have s: "map (\<lambda>p. (eid (event p), zIndex p, width p, left p))
      (dayView sampleDeps (clock 5 12 0) [exB, exA]) =
      [(''A'', 10, 1, 0), (''B'', 11, toDouble (9 / 10), toDouble (1 / 10))]"
    using mp[OF conjunct1[OF conjunct2[OF conjunct2[OF scen]]] a] by blast
  have v: "map (\<lambda>p. (eid (event p), zIndex p, width p, left p)) ?out =
     [(''A'', 10, 1, 0),
      (''B'', 11, 8106479329266893 / 2 ^ 53, 3602879701896397 / 2 ^ 55),
      (''Q'', 12, 8106479329266893 / 2 ^ 53, 3602879701896397 / 2 ^ 54),
      (''R'', 13, 8106479329266893 / 2 ^ 53, 1351079888211149 / 2 ^ 52)]"
    by code_simp
  have l: "length ?out = 4"
    using arg_cong[OF v, of length] by simp
  have "(\<lambda>p. (eid (event p), zIndex p, width p, left p)) (?out ! 3) =
      (''R'', 13, 8106479329266893 / 2 ^ 53, 1351079888211149 / 2 ^ 52)"
    using arg_cong[OF v, of "\<lambda>xs. xs ! 3"] l by (simp del: of_nat_numeral)
  then have z3: "zIndex (?out ! 3) = 13" by simp
  have m: "?out ! 3 \<in> set ?out"
    using l by simp
  obtain k where k: "k < length (dayViewColumns sampleDeps (clock 5 12 0) [exR, exB, exQ, exA])"
    "zIndex (?out ! 3) = 10 + k"
    "0 < k \<longrightarrow> width (?out ! 3) = toDouble (9 / 10) \<and>
       left (?out ! 3) = toDouble (of_nat k * toDouble (1 / 10))"
    using bspec[OF conjunct1[OF policy] m] by blast
  from k(2) z3 have "0 < k" by simp
  with k s v show ?thesis by blast
qed

text \<open>
  C8, as amended. Two orders of the same events give the same positioned events and the
  same columns when no two timed events of the rendered day agree in both start and
  whole-minute duration.  They give the same visible lanes and overflow events of the
  week view, with the lane packing modelled from the spec, when no two events kept by the
  week's filter agree in both start and duration.  A second render on the store the first
  one left gives the positioned events of the first: nothing a render writes is read by
  the next.
\<close>

theorem layout_order_independent:
  assumes "mset xs = mset ys"
    and "inj_on startDurationKey (set (timeEvents deps cur xs))"
  shows "dayView deps cur xs = dayView deps cur ys \<and>
         dayViewColumns deps cur xs = dayViewColumns deps cur ys \<and>
         (\<forall>showWeekends isWeekend weekStart weekEnd.
            inj_on laneOrderKey
              (set (weekAllDayEvents showWeekends isWeekend weekStart weekEnd xs)) \<longrightarrow>
            weekOverflow (weekAllDayEvents showWeekends isWeekend weekStart weekEnd xs) =
            weekOverflow (weekAllDayEvents showWeekends isWeekend weekStart weekEnd ys)) \<and>
         (\<forall>h eventsRef. eventsRef < nextRef h \<longrightarrow>
            snd (snd (dayViewPass deps cur (fst (dayViewPass deps cur h eventsRef)) eventsRef)) =
            snd (snd (dayViewPass deps cur h eventsRef)))"
proof -
  have "mset (timeEvents deps cur xs) = mset (timeEvents deps cur ys)"
    using assms(1) by (rule mset_timeEvents)
  then have "sortedEvents (timeEvents deps cur xs) = sortedEvents (timeEvents deps cur ys)"
    unfolding sortedEvents_sort_key using assms(2) by (rule sort_key_eq_sort_key)
  then have 1: "dayView deps cur xs = dayView deps cur ys"
    and 2: "dayViewColumns deps cur xs = dayViewColumns deps cur ys"
    by (simp_all add: dayView_def dayViewColumns_def positionedEvents_def layoutState_def)
  have 3: "weekOverflow (weekAllDayEvents sw iw ws we xs) =
      weekOverflow (weekAllDayEvents sw iw ws we ys)"
    if "inj_on laneOrderKey (set (weekAllDayEvents sw iw ws we xs))" for sw iw ws we
    using mset_weekAllDayEvents[OF assms(1)] that by (rule weekOverflow_order)
  have 4: "snd (snd (dayViewPass deps cur (fst (dayViewPass deps cur h r)) r)) =
      snd (snd (dayViewPass deps cur h r))" if "r < nextRef h" for h r
    using that by (rule dayViewPass_again)
  from 1 2 3 4 show ?thesis by blast
qed

theorem layout_order_independent_witness:
  "dayView sampleDeps (clock 5 12 0) [exA, exB] = dayView sampleDeps (clock 5 12 0) [exB, exA] \<and>
   weekOverflow (weekAllDayEvents True sampleIsWeekend (clock 3 0 0) (clock 9 0 0)
                   [exMonday, exSunday]) =
   weekOverflow (weekAllDayEvents True sampleIsWeekend (clock 3 0 0) (clock 9 0 0)
                   [exSunday, exMonday]) \<and>
   snd (snd (dayViewPass sampleDeps (clock 5 12 0)
               (fst (dayViewPass sampleDeps (clock 5 12 0) sampleStore 0)) 0)) =
   snd (snd (dayViewPass sampleDeps (clock 5 12 0) sampleStore 0))"
proof -
  have m: "mset [exA, exB] = mset [exB, exA]" by simp
  have t: "timeEvents sampleDeps (clock 5 12 0) [exA, exB] = [exA, exB]" by code_simp
  have k: "startDurationKey exA \<noteq> startDurationKey exB" by code_simp
  have i: "inj_on startDurationKey (set (timeEvents sampleDeps (clock 5 12 0) [exA, exB]))"
    unfolding t using k by (auto simp: inj_on_def)
  have r: "(0::nat) < nextRef sampleStore" by (simp add: sampleStore_def)
  note u = layout_order_independent[OF m i]
  have m': "mset [exMonday, exSunday] = mset [exSunday, exMonday]" by simp
  have t': "timeEvents sampleDeps (clock 5 12 0) [exMonday, exSunday] = []" by code_simp
  have i': "inj_on startDurationKey
      (set (timeEvents sampleDeps (clock 5 12 0) [exMonday, exSunday]))"
    unfolding t' by simp
  have w: "weekAllDayEvents True sampleIsWeekend (clock 3 0 0) (clock 9 0 0)
      [exMonday, exSunday] = [exMonday, exSunday]" by code_simp
  have k': "laneOrderKey exMonday \<noteq> laneOrderKey exSunday" by code_simp
  have j: "inj_on laneOrderKey (set (weekAllDayEvents True sampleIsWeekend (clock 3 0 0)
      (clock 9 0 0) [exMonday, exSunday]))"
    unfolding w using k' by (auto simp: inj_on_def)
  note u' = layout_order_independent[OF m' i']
  from conjunct1[OF conjunct2[OF conjunct2[OF u']]] j
  have o: "weekOverflow (weekAllDayEvents True sampleIsWeekend (clock 3 0 0) (clock 9 0 0)
                   [exMonday, exSunday]) =
      weekOverflow (weekAllDayEvents True sampleIsWeekend (clock 3 0 0) (clock 9 0 0)
                   [exSunday, exMonday])" by blast
  from conjunct1[OF u] conjunct2[OF conjunct2[OF conjunct2[OF u]]] r o show ?thesis by blast
qed

text \<open>
  C8 as stated fails: A and A2 have the same start and end; whichever comes first in the
  input gets column 0.  The eleven equal all-day events of Monday and Tuesday likewise:
  the one that comes last in the input is the overflow.
\<close>

theorem layout_depends_on_input_order:
  "mset [exA, exA2] = mset [exA2, exA] \<and>
   map (\<lambda>p. (eid (event p), zIndex p)) (dayView sampleDeps (clock 5 12 0) [exA, exA2]) =
     [(''A'', 10), (''A2'', 11)] \<and>
   map (\<lambda>p. (eid (event p), zIndex p)) (dayView sampleDeps (clock 5 12 0) [exA2, exA]) =
     [(''A2'', 10), (''A'', 11)] \<and>
   mset exEleven = mset (rev exEleven) \<and>
   map eid (overflowEvents (weekOverflow exEleven)) = [replicate 11 CHR ''e''] \<and>
   map eid (overflowEvents (weekOverflow (rev exEleven))) = [''e'']"
proof -
  have "mset [exA, exA2] = mset [exA2, exA]" by simp
  moreover have "map (\<lambda>p. (eid (event p), zIndex p)) (dayView sampleDeps (clock 5 12 0) [exA, exA2]) =
     [(''A'', 10), (''A2'', 11)]" by code_simp
  moreover have "map (\<lambda>p. (eid (event p), zIndex p)) (dayView sampleDeps (clock 5 12 0) [exA2, exA]) =
     [(''A2'', 10), (''A'', 11)]" by code_simp
  moreover have "mset exEleven = mset (rev exEleven)" by simp
  moreover have "map eid (overflowEvents (weekOverflow exEleven)) = [replicate 11 CHR ''e'']"
    by code_simp
  moreover have "map eid (overflowEvents (weekOverflow (rev exEleven))) = [''e'']"
    by code_simp
  ultimately show ?thesis by blast
qed

text \<open>
  C9. One render of the day view leaves every array that existed before it as it was, the
  \<open>events\<close> array and the event objects in it included: the two sorts work on arrays
  the render itself allocated.  The positioned events are those of the pure model, and
  each carries an event of the input, unchanged; clipping only enters the derived
  numbers.
\<close>

theorem input_events_untouched:
  assumes "eventsRef < nextRef h"
  shows "(\<forall>r < nextRef h. arrays (fst (dayViewPass deps cur h eventsRef)) r = arrays h r) \<and>
         snd (snd (dayViewPass deps cur h eventsRef)) = dayView deps cur (arrays h eventsRef) \<and>
         (\<forall>p \<in> set (dayView deps cur (arrays h eventsRef)).
            event p \<in> set (arrays h eventsRef))"
proof (intro conjI allI impI ballI)
  fix r assume "r < nextRef h"
  then show "arrays (fst (dayViewPass deps cur h eventsRef)) r = arrays h r"
    by (rule dayViewPass_frame)
next
  show "snd (snd (dayViewPass deps cur h eventsRef)) = dayView deps cur (arrays h eventsRef)"
    using assms by (rule dayViewPass_result)
next
  fix p assume "p \<in> set (dayView deps cur (arrays h eventsRef))"
  then have "event p \<in> set (timeEvents deps cur (arrays h eventsRef))"
    using events_of_dayView[of deps cur "arrays h eventsRef"] by blast
  then show "event p \<in> set (arrays h eventsRef)"
    by (simp add: set_timeEvents)
qed


theorem input_events_untouched_witness:
  "arrays (fst (dayViewPass sampleDeps (clock 5 12 0) sampleStore 0)) 0 = [exB, exA] \<and>
   map event (snd (snd (dayViewPass sampleDeps (clock 5 12 0) sampleStore 0))) = [exA, exB] \<and>
   arrays (fst (dayViewPass timedOnlyDeps (clock 5 12 0) lateStore 0)) 0 = [exLate] \<and>
   map (\<lambda>p. (event p, top_px p, height_px p))
     (snd (snd (dayViewPass timedOnlyDeps (clock 5 12 0) lateStore 0))) = [(exLate, 0, 64)] \<and>
   timedInterval (clock 5 12 0) exLate = (clock 5 0 0, clock 5 1 0) \<and>
   start exLate = clock 4 23 0"
proof -
  have a: "(0::nat) < nextRef sampleStore" by (simp add: sampleStore_def)
  have b: "arrays sampleStore 0 = [exB, exA]" by (simp add: sampleStore_def)
  have c: "map event (dayView sampleDeps (clock 5 12 0) [exB, exA]) = [exA, exB]"
    by code_simp
  note t = input_events_untouched[OF a, of sampleDeps "clock 5 12 0"]
  have a': "(0::nat) < nextRef lateStore" by (simp add: lateStore_def)
  have b': "arrays lateStore 0 = [exLate]" by (simp add: lateStore_def)
  have c': "map (\<lambda>p. (event p, top_px p, height_px p))
      (dayView timedOnlyDeps (clock 5 12 0) [exLate]) = [(exLate, 0, 64)]"
    by code_simp
  have d': "timedInterval (clock 5 12 0) exLate = (clock 5 0 0, clock 5 1 0)"
    "start exLate = clock 4 23 0"
    by code_simp+
  note t' = input_events_untouched[OF a', of timedOnlyDeps "clock 5 12 0"]
  from spec[OF conjunct1[OF t], of 0] a conjunct1[OF conjunct2[OF t]] b c
       spec[OF conjunct1[OF t'], of 0] a' conjunct1[OF conjunct2[OF t']] b' c' d'
  show ?thesis by simp
qed

section \<open>Week view: the claims\<close>

text \<open>
  C3, as amended. The cell of each day of the window lists exactly the overflow events
  whose start is on that day, and the cell is visible when weekends are shown or the day
  is not a weekend day.  An overflow event is therefore listed in exactly one cell when
  its start is on a day of the window, and in no cell otherwise; it is listed in exactly
  one visible cell when its start is on a visible day of the window, and in no visible
  cell otherwise (the days of the window are distinct days).
\<close>

theorem overflow_on_start_day:
  assumes "distinct (map startOfDay allDays)"
  shows "(\<forall>i < length allDays.
            cellOverflowEvents (overflowCells showWeekends isWeekend ovs allDays ! i) =
              filter (\<lambda>ev. startOfDay (start ev) = startOfDay (allDays ! i)) ovs \<and>
            isDayVisible (overflowCells showWeekends isWeekend ovs allDays ! i) =
              (showWeekends \<or> \<not> isWeekend (allDays ! i))) \<and>
         (\<forall>ev \<in> set ovs.
            length (filter (\<lambda>cell. ev \<in> set (cellOverflowEvents cell))
                      (overflowCells showWeekends isWeekend ovs allDays)) =
              (if startOfDay (start ev) \<in> startOfDay ` set allDays then 1 else 0) \<and>
            length (filter (\<lambda>cell. isDayVisible cell \<and> ev \<in> set (cellOverflowEvents cell))
                      (overflowCells showWeekends isWeekend ovs allDays)) =
              (if \<exists>day \<in> set allDays.
                    isSameDay (start ev) day \<and> (showWeekends \<or> \<not> isWeekend day)
               then 1 else 0))"
proof (intro conjI allI impI ballI)
  fix i assume i: "i < length allDays"
  then show "cellOverflowEvents (overflowCells showWeekends isWeekend ovs allDays ! i) =
      filter (\<lambda>ev. startOfDay (start ev) = startOfDay (allDays ! i)) ovs"
    by (simp add: overflowCells_def dayOverflowEvents_def isSameDay_def)
  from i show "isDayVisible (overflowCells showWeekends isWeekend ovs allDays ! i) =
      (showWeekends \<or> \<not> isWeekend (allDays ! i))"
    by (simp add: overflowCells_def)
next
  fix ev assume ev: "ev \<in> set ovs"
  have "length (filter (\<lambda>cell. True \<and> ev \<in> set (cellOverflowEvents cell))
                      (overflowCells showWeekends isWeekend ovs allDays)) =
        length (filter (\<lambda>day. isSameDay (start ev) day \<and> True) allDays)"
    unfolding cells_listing[OF ev, of "\<lambda>cell. True"] by simp
  also have "\<dots> = (if \<exists>day \<in> set allDays. isSameDay (start ev) day \<and> True then 1 else 0)"
    by (rule cells_count[OF assms])
  also have "(\<exists>day \<in> set allDays. isSameDay (start ev) day \<and> True) \<longleftrightarrow>
      startOfDay (start ev) \<in> startOfDay ` set allDays"
    by (auto simp: isSameDay_def)
  finally show "length (filter (\<lambda>cell. ev \<in> set (cellOverflowEvents cell))
                      (overflowCells showWeekends isWeekend ovs allDays)) =
              (if startOfDay (start ev) \<in> startOfDay ` set allDays then 1 else 0)"
    by simp
  have "length (filter (\<lambda>cell. isDayVisible cell \<and> ev \<in> set (cellOverflowEvents cell))
                      (overflowCells showWeekends isWeekend ovs allDays)) =
        length (filter (\<lambda>day. isSameDay (start ev) day \<and> (showWeekends \<or> \<not> isWeekend day))
                  allDays)"
    unfolding cells_listing[OF ev, of isDayVisible] by simp
  also have "\<dots> = (if \<exists>day \<in> set allDays.
                    isSameDay (start ev) day \<and> (showWeekends \<or> \<not> isWeekend day)
               then 1 else 0)"
    by (rule cells_count[OF assms])
  finally show "length (filter (\<lambda>cell. isDayVisible cell \<and> ev \<in> set (cellOverflowEvents cell))
                      (overflowCells showWeekends isWeekend ovs allDays)) =
              (if \<exists>day \<in> set allDays.
                    isSameDay (start ev) day \<and> (showWeekends \<or> \<not> isWeekend day)
               then 1 else 0)" .
qed

theorem overflow_on_start_day_witness:
  "cellOverflowEvents
     (overflowCells False sampleIsWeekend [exLongBefore, exMonday, exSunday] sampleWeek ! 1) =
     [exMonday] \<and>
   length (filter (\<lambda>cell. exMonday \<in> set (cellOverflowEvents cell))
      (overflowCells False sampleIsWeekend [exLongBefore, exMonday, exSunday] sampleWeek)) = 1 \<and>
   length (filter (\<lambda>cell. isDayVisible cell \<and> exMonday \<in> set (cellOverflowEvents cell))
      (overflowCells False sampleIsWeekend [exLongBefore, exMonday, exSunday] sampleWeek)) = 1 \<and>
   length (filter (\<lambda>cell. exSunday \<in> set (cellOverflowEvents cell))
      (overflowCells False sampleIsWeekend [exLongBefore, exMonday, exSunday] sampleWeek)) = 1 \<and>
   length (filter (\<lambda>cell. isDayVisible cell \<and> exSunday \<in> set (cellOverflowEvents cell))
      (overflowCells False sampleIsWeekend [exLongBefore, exMonday, exSunday] sampleWeek)) = 0 \<and>
   length (filter (\<lambda>cell. exLongBefore \<in> set (cellOverflowEvents cell))
      (overflowCells False sampleIsWeekend [exLongBefore, exMonday, exSunday] sampleWeek)) = 0"
proof -
  have d: "distinct (map startOfDay sampleWeek)" by code_simp
  have l: "1 < length sampleWeek" by code_simp
  have m: "exMonday \<in> set [exLongBefore, exMonday, exSunday]"
    "exSunday \<in> set [exLongBefore, exMonday, exSunday]"
    "exLongBefore \<in> set [exLongBefore, exMonday, exSunday]" by simp_all
  have f: "filter (\<lambda>ev. startOfDay (start ev) = startOfDay (sampleWeek ! 1))
             [exLongBefore, exMonday, exSunday] = [exMonday]" by code_simp
  have on: "startOfDay (start exMonday) \<in> startOfDay ` set sampleWeek"
    "startOfDay (start exSunday) \<in> startOfDay ` set sampleWeek"
    "startOfDay (start exLongBefore) \<notin> startOfDay ` set sampleWeek" by code_simp+
  have vis: "\<exists>day \<in> set sampleWeek.
      isSameDay (start exMonday) day \<and> (False \<or> \<not> sampleIsWeekend day)"
    "\<not> (\<exists>day \<in> set sampleWeek.
      isSameDay (start exSunday) day \<and> (False \<or> \<not> sampleIsWeekend day))" by code_simp+
  note t = overflow_on_start_day[OF d, of False sampleIsWeekend
      "[exLongBefore, exMonday, exSunday]"]
  from conjunct1[OF mp[OF spec[OF conjunct1[OF t], of 1] l]] f
  have 1: "cellOverflowEvents
     (overflowCells False sampleIsWeekend [exLongBefore, exMonday, exSunday] sampleWeek ! 1) =
     [exMonday]" by simp
  from bspec[OF conjunct2[OF t] m(1)] on(1) vis(1)
  have 2: "length (filter (\<lambda>cell. exMonday \<in> set (cellOverflowEvents cell))
      (overflowCells False sampleIsWeekend [exLongBefore, exMonday, exSunday] sampleWeek)) = 1"
    "length (filter (\<lambda>cell. isDayVisible cell \<and> exMonday \<in> set (cellOverflowEvents cell))
      (overflowCells False sampleIsWeekend [exLongBefore, exMonday, exSunday] sampleWeek)) = 1"
    by simp_all
  from bspec[OF conjunct2[OF t] m(2)] on(2) vis(2)
  have 3: "length (filter (\<lambda>cell. exSunday \<in> set (cellOverflowEvents cell))
      (overflowCells False sampleIsWeekend [exLongBefore, exMonday, exSunday] sampleWeek)) = 1"
    "length (filter (\<lambda>cell. isDayVisible cell \<and> exSunday \<in> set (cellOverflowEvents cell))
      (overflowCells False sampleIsWeekend [exLongBefore, exMonday, exSunday] sampleWeek)) = 0"
    by simp_all
  from bspec[OF conjunct2[OF t] m(3)] on(3)
  have 4: "length (filter (\<lambda>cell. exLongBefore \<in> set (cellOverflowEvents cell))
      (overflowCells False sampleIsWeekend [exLongBefore, exMonday, exSunday] sampleWeek)) = 0"
    by simp
  from 1 2 3 4 show ?thesis by blast
qed

text \<open>
  C3 as stated fails: eleven all-day events from Friday before the week to Tuesday are
  all kept by the week's filter; with the lane packing modelled from the spec the last of
  them is the overflow, and it is listed in no cell of the week, visible or not.
\<close>

theorem overflow_before_week_never_reported:
  "weekAllDayEvents True sampleIsWeekend (clock 3 0 0) (last sampleWeek) exElevenBefore =
     exElevenBefore \<and>
   map eid (overflowEvents (weekOverflow exElevenBefore)) = [replicate 11 CHR ''b''] \<and>
   concat (map cellOverflowEvents
     (overflowCells True sampleIsWeekend (overflowEvents (weekOverflow exElevenBefore))
        sampleWeek)) = []"
  by code_simp

text \<open>
  C6. For an all-day event the week view takes the end one day earlier before it decides
  membership in the week (with weekends shown and with weekends hidden) and before it
  compares the end with the week's last day for \<open>isLastDay\<close>.
\<close>

theorem all_day_end_inclusive:
  assumes "allDay ev"
  shows "(ev \<in> set (weekAllDayEvents True isWeekend weekStart weekEnd events) \<longleftrightarrow>
            ev \<in> set events \<and>
            (isWithinInterval (start ev) (weekStart, weekEnd) \<or>
             isWithinInterval (endAt ev - msPerDay) (weekStart, weekEnd))) \<and>
         (ev \<in> set (weekAllDayEvents False isWeekend weekStart weekEnd events) \<longleftrightarrow>
            ev \<in> set events \<and>
            list_ex (\<lambda>day. \<not> isWeekend day)
              (eachDayOfInterval
                 (max (start ev) weekStart, min (endAt ev - msPerDay) weekEnd))) \<and>
         (isLastDay weekEnd ev \<longleftrightarrow> endAt ev - msPerDay \<le> weekEnd)"
  using assms
  by (simp add: weekAllDayEvents_shown weekAllDayEvents_hidden isLastDay_def subDays_def)

theorem all_day_end_inclusive_witness:
  "exSaturday \<notin> set (weekAllDayEvents True sampleIsWeekend (clock 3 0 0) (clock 9 0 0) [exSaturday]) \<and>
   isWithinInterval (endAt exSaturday) (clock 3 0 0, clock 9 0 0) \<and>
   isLastDay (clock 9 0 0) exSaturday"
proof -
  have a: "allDay exSaturday" by code_simp
  have s: "\<not> isWithinInterval (start exSaturday) (clock 3 0 0, clock 9 0 0)" by code_simp
  have e: "\<not> isWithinInterval (endAt exSaturday - msPerDay) (clock 3 0 0, clock 9 0 0)" by code_simp
  have w: "isWithinInterval (endAt exSaturday) (clock 3 0 0, clock 9 0 0)" by code_simp
  have l: "endAt exSaturday - msPerDay \<le> clock 9 0 0" by code_simp
  from all_day_end_inclusive[OF a, of sampleIsWeekend "clock 3 0 0" "clock 9 0 0" "[exSaturday]"]
    s e w l
  show ?thesis by simp
qed

text \<open>
  C7, as amended, against the lane packing modelled from the spec with the week view's
  capacity of 10: on every day at most 10 visible lanes hold an event, and the visible
  lanes with an event on the day plus the hidden events on the day are all the events on
  the day.
\<close>

theorem capacity_with_hidden_events:
  "visibleLaneCount allDayEvents day \<le> 10 \<and>
   visibleLaneCount allDayEvents day + hiddenOnDay allDayEvents day =
     totalOverlappingEventsOnDay allDayEvents day"
proof
  show "visibleLaneCount allDayEvents day \<le> 10"
    unfolding visibleLaneCount_def weekOverflow_def useMultiDayOverflow_def Let_def
    by (simp add: le_trans[OF length_filter_le])
next
  let ?lanes = "placeIntoLanes allDayEvents"
  have ok1: "\<forall>lane \<in> set (take 10 ?lanes). laneOk lane"
    using placeIntoLanes_ok[of allDayEvents] by (auto dest: in_set_takeD)
  have ok2: "\<forall>lane \<in> set (drop 10 ?lanes). laneOk lane"
    using placeIntoLanes_ok[of allDayEvents] by (auto dest: in_set_dropD)
  have "totalOverlappingEventsOnDay allDayEvents day =
        length (filter (coversDay day) (concat ?lanes))"
    unfolding totalOverlappingEventsOnDay_def
    by (rule length_filter_mset) (simp add: placeIntoLanes_mset)
  also have "concat ?lanes = concat (take 10 ?lanes) @ concat (drop 10 ?lanes)"
    by (metis append_take_drop_id concat_append)
  also have "length (filter (coversDay day) (concat (take 10 ?lanes) @ concat (drop 10 ?lanes))) =
      length (filter (list_ex (coversDay day)) (take 10 ?lanes)) +
      length (filter (coversDay day) (concat (drop 10 ?lanes)))"
    by (simp add: lanes_count[OF ok1])
  finally show "visibleLaneCount allDayEvents day + hiddenOnDay allDayEvents day =
     totalOverlappingEventsOnDay allDayEvents day"
    by (simp add: visibleLaneCount_def hiddenOnDay_def weekOverflow_def useMultiDayOverflow_def
        Let_def)
qed

text \<open>
  C7 as stated fails with the count of the day's overflow indicator, which counts the
  hidden events that start on the day: of eleven events on Monday and Tuesday, ten are
  visible on Tuesday and the indicator of Tuesday counts none.
\<close>

theorem capacity_sum_fails_after_start_day:
  "visibleLaneCount exEleven (clock 5 0 0) = 10 \<and>
   overflowCount exEleven (clock 5 0 0) = 0 \<and>
   totalOverlappingEventsOnDay exEleven (clock 5 0 0) = 11"
  by code_simp

text \<open>
  C10. With weekends shown, an event that starts before the first day of the week and
  whose end (one day earlier for an all-day event) is after the last day of the week is
  not in the week view's list of all-day events.
\<close>

theorem spanning_event_excluded:
  assumes "weekStart \<le> weekEnd" "start ev < weekStart"
    and "weekEnd < (if allDay ev then subDays (endAt ev) 1 else endAt ev)"
  shows "ev \<notin> set (weekAllDayEvents True isWeekend weekStart weekEnd events)"
  using assms
  by (auto simp: weekAllDayEvents_shown isWithinInterval_def Let_def subDays_def)

theorem spanning_event_excluded_witness:
  "exSpanning \<notin> set (weekAllDayEvents True sampleIsWeekend (clock 3 0 0) (clock 9 0 0) [exSpanning])"
proof -
  have a: "clock 3 0 0 \<le> clock 9 0 0" "start exSpanning < clock 3 0 0"
    "clock 9 0 0 < (if allDay exSpanning then subDays (endAt exSpanning) 1 else endAt exSpanning)"
    by code_simp+
  show ?thesis by (rule spanning_event_excluded[OF a])
qed

end
